theory Spec2Isabelle
  imports Main
begin

section \<open>Errors and raw values\<close>

text \<open>
  The exceptions that \<^verbatim>\<open>chain/function.py\<close> raises itself (NotImplementedError,
  RuntimeError) and the ones the Python runtime raises inside it: ValueError for
  \<^verbatim>\<open>max\<close> of an empty sequence, AttributeError for a method call on None, TypeError for
  iterating or indexing None, IndexError for \<^verbatim>\<open>[][0]\<close>.
\<close>

datatype error =
  NotImplementedError | RuntimeError | ValueError | AttributeError | TypeError | IndexError

text \<open>
  A raw value is opaque to the graph code: all it ever looks at is the Python type of the
  object (\<^verbatim>\<open>type(x) == GPUArray\<close>) and, by passing references around, its identity.
\<close>

datatype pytype = Ndarray | GPUArray | Other_type

record raw =
  ty :: pytype
  ident :: nat

section \<open>Backend dispatch: forward and backward of Function\<close>

text \<open>\<^verbatim>\<open>def _is_gpu_input(inputs): return any(type(x) == GPUArray for x in inputs)\<close>\<close>

definition is_gpu_input :: "raw list \<Rightarrow> bool" where
  "is_gpu_input inputs = list_ex (\<lambda>x. ty x = GPUArray) inputs"

text \<open>
  A concrete operation is a subclass of Function; what matters of it here is which of the
  four backend methods it overrides. A method that is not overridden is None and the base
  class's body runs. The type parameter is the type of gradient values.
\<close>

record 'g operation =
  forward_cpu_impl :: "(raw list \<Rightarrow> error + raw list) option"
  forward_gpu_impl :: "(raw list \<Rightarrow> error + raw list) option"
  backward_cpu_impl :: "(raw list \<Rightarrow> 'g option list \<Rightarrow> error + 'g option list) option"
  backward_gpu_impl :: "(raw list \<Rightarrow> 'g option list \<Rightarrow> error + 'g option list) option"

text \<open>The base class Function itself: nothing is overridden.\<close>

definition Function_base :: "'g operation" where
  "Function_base =
     \<lparr>forward_cpu_impl = None, forward_gpu_impl = None,
      backward_cpu_impl = None, backward_gpu_impl = None\<rparr>"

definition forward_cpu :: "'g operation \<Rightarrow> raw list \<Rightarrow> error + raw list" where
  "forward_cpu cls inputs =
     (case forward_cpu_impl cls of
        None \<Rightarrow> Inl NotImplementedError
      | Some impl \<Rightarrow> impl inputs)"

definition forward_gpu :: "'g operation \<Rightarrow> raw list \<Rightarrow> error + raw list" where
  "forward_gpu cls inputs =
     (case forward_gpu_impl cls of
        None \<Rightarrow> Inl NotImplementedError
      | Some impl \<Rightarrow> impl inputs)"

definition forward :: "'g operation \<Rightarrow> raw list \<Rightarrow> error + raw list" where
  "forward cls inputs =
     (if is_gpu_input inputs then forward_gpu cls inputs else forward_cpu cls inputs)"

definition backward_cpu ::
  "'g operation \<Rightarrow> raw list \<Rightarrow> 'g option list \<Rightarrow> error + 'g option list" where
  "backward_cpu cls inputs grad_outputs =
     (case backward_cpu_impl cls of
        None \<Rightarrow> Inr (map (\<lambda>_. None) inputs)
      | Some impl \<Rightarrow> impl inputs grad_outputs)"

definition backward_gpu ::
  "'g operation \<Rightarrow> raw list \<Rightarrow> 'g option list \<Rightarrow> error + 'g option list" where
  "backward_gpu cls inputs grad_outputs =
     (case backward_gpu_impl cls of
        None \<Rightarrow> Inr (map (\<lambda>_. None) inputs)
      | Some impl \<Rightarrow> impl inputs grad_outputs)"

definition backward ::
  "'g operation \<Rightarrow> raw list \<Rightarrow> 'g option list \<Rightarrow> error + 'g option list" where
  "backward cls inputs grad_outputs =
     (if is_gpu_input inputs then backward_gpu cls inputs grad_outputs
      else backward_cpu cls inputs grad_outputs)"

section \<open>Split.backward: accumulation of branch gradients\<close>

text \<open>
  Gradient arrays are mutable objects: \<^verbatim>\<open>gy.copy()\<close> allocates a new one and
  \<^verbatim>\<open>gx += gy\<close> adds in place. The store maps the address of an array to its contents;
  the field gnext is the first address not yet allocated.
\<close>

record 'a gstore =
  cells :: "nat \<Rightarrow> 'a"
  gnext :: nat

definition copy_array :: "'a gstore \<Rightarrow> nat \<Rightarrow> 'a gstore \<times> nat" where
  "copy_array st gy =
     (st\<lparr>cells := (cells st)(gnext st := cells st gy), gnext := Suc (gnext st)\<rparr>, gnext st)"

definition iadd :: "'a::plus gstore \<Rightarrow> nat \<Rightarrow> nat \<Rightarrow> 'a gstore" where
  "iadd st gx gy = st\<lparr>cells := (cells st)(gx := cells st gx + cells st gy)\<rparr>"

text \<open>
  The loop of Split.backward; the first argument is \<^verbatim>\<open>len(grad_outputs)\<close> of the whole
  tuple, the third the accumulator \<^verbatim>\<open>gx\<close>.
\<close>

fun accumulate ::
  "nat \<Rightarrow> 'a::plus gstore \<Rightarrow> nat option \<Rightarrow> nat option list \<Rightarrow> 'a gstore \<times> nat option" where
  "accumulate n st gx [] = (st, gx)"
| "accumulate n st gx (None # gys) = accumulate n st gx gys"
| "accumulate n st None (Some gy # gys) =
     (if n = 1 then accumulate n st (Some gy) gys
      else (case copy_array st gy of (st', c) \<Rightarrow> accumulate n st' (Some c) gys))"
| "accumulate n st (Some gx) (Some gy # gys) = accumulate n (iadd st gx gy) (Some gx) gys"

definition Split_backward ::
  "'a::plus gstore \<Rightarrow> raw list \<Rightarrow> nat option list \<Rightarrow> 'a gstore \<times> nat option list" where
  "Split_backward st inputs grad_outputs =
     (case accumulate (length grad_outputs) st None grad_outputs of
        (st', gx) \<Rightarrow> (st', [gx]))"

text \<open>The gradients that are present in a tuple, in order.\<close>

definition present :: "nat option list \<Rightarrow> nat list" where
  "present gys = concat (map (\<lambda>g. case g of None \<Rightarrow> [] | Some a \<Rightarrow> [a]) gys)"

section \<open>The graph: variables and function nodes on a heap\<close>

text \<open>
  Objects are referred to by address. The attribute \<^verbatim>\<open>splitter\<close> of a variable is not
  declared by its class: \<^verbatim>\<open>Function.__call__\<close> tests it with \<^verbatim>\<open>hasattr\<close> and sets
  it, and \<^verbatim>\<open>forget\<close> sets it to None. So it has three states: absent, None, or a reference
  to a Split node.
\<close>

datatype link = Unset | Null | Ref nat

text \<open>
  Modelled from the spec: the class Variable (module \<^verbatim>\<open>variable\<close>, imported by
  \<^verbatim>\<open>chain/function.py\<close>) is not among the sources. The spec's DataNode has a raw value, a
  nullable producing operation, a rank (the producer's rank, 0 for a leaf) and a nullable
  gradient slot. The field splitter is the attribute that function.py itself attaches.
\<close>

record variable =
  data :: raw
  vrank :: nat
  creator :: "nat option"
  grad :: "nat option"
  splitter :: link

text \<open>
  An instance of Function (or of a subclass): \<^verbatim>\<open>inputs\<close>, \<^verbatim>\<open>outputs\<close> and \<^verbatim>\<open>rank\<close>
  are None after \<^verbatim>\<open>__init__\<close>. For a ParameterizedFunction, \<^verbatim>\<open>parameter_names\<close> and
  \<^verbatim>\<open>gradient_names\<close> are the declared names and \<open>attrs\<close> holds the other attributes of
  the instance, each a reference to an object.
\<close>

record func =
  inputs :: "nat list option"
  outputs :: "nat list option"
  rank :: "nat option"
  parameter_names :: "string list"
  gradient_names :: "string list"
  attrs :: "string \<Rightarrow> nat option"

record heap =
  vars :: "nat \<Rightarrow> variable"
  nvars :: nat
  funcs :: "nat \<Rightarrow> func"
  nfuncs :: nat

text \<open>
  Modelled from the spec: \<^verbatim>\<open>Variable(value)\<close> creates a leaf, of rank 0, with no
  producer and no gradient.
\<close>

definition new_Variable :: "heap \<Rightarrow> raw \<Rightarrow> heap \<times> nat" where
  "new_Variable h d =
     (h\<lparr>vars := (vars h)(nvars h :=
          \<lparr>data = d, vrank = 0, creator = None, grad = None, splitter = Unset\<rparr>),
        nvars := Suc (nvars h)\<rparr>, nvars h)"

text \<open>
  Modelled from the spec: \<^verbatim>\<open>set_creator\<close> records the producer and takes the producer's
  rank as the variable's rank. A producer whose rank is still None has no rank to hand on:
  that is a TypeError here.
\<close>

definition set_creator :: "heap \<Rightarrow> nat \<Rightarrow> nat \<Rightarrow> heap \<times> error option" where
  "set_creator h v f =
     (case rank (funcs h f) of
        None \<Rightarrow> (h, Some TypeError)
      | Some r \<Rightarrow>
          (h\<lparr>vars := (vars h)(v := (vars h v)\<lparr>creator := Some f, vrank := r\<rparr>)\<rparr>, None))"

text \<open>\<^verbatim>\<open>Split(var)\<close>: a new node with \<^verbatim>\<open>inputs = [var]\<close>, \<^verbatim>\<open>outputs = []\<close>,
  \<^verbatim>\<open>rank = var.rank\<close>.\<close>

definition new_Split :: "heap \<Rightarrow> nat \<Rightarrow> heap \<times> nat" where
  "new_Split h var =
     (h\<lparr>funcs := (funcs h)(nfuncs h :=
          \<lparr>inputs = Some [var], outputs = Some [], rank = Some (vrank (vars h var)),
           parameter_names = [], gradient_names = [], attrs = (\<lambda>_. None)\<rparr>),
        nfuncs := Suc (nfuncs h)\<rparr>, nfuncs h)"

definition add_branch :: "heap \<Rightarrow> nat \<Rightarrow> heap \<times> (error + nat)" where
  "add_branch h s =
     (case inputs (funcs h s) of
        None \<Rightarrow> (h, Inl TypeError)
      | Some [] \<Rightarrow> (h, Inl IndexError)
      | Some (x # _) \<Rightarrow>
          (case new_Variable h (data (vars h x)) of (h1, output) \<Rightarrow>
             (case set_creator h1 output s of
                (h2, Some e) \<Rightarrow> (h2, Inl e)
              | (h2, None) \<Rightarrow>
                  (case outputs (funcs h2 s) of
                     None \<Rightarrow> (h2, Inl AttributeError)
                   | Some outs \<Rightarrow>
                       (h2\<lparr>funcs := (funcs h2)(s := (funcs h2 s)\<lparr>outputs := Some (outs @ [output])\<rparr>)\<rparr>,
                        Inr output)))))"

text \<open>\<^verbatim>\<open>if not hasattr(x, 'splitter'): x.splitter = Split(x)\<close>\<close>

definition ensure_splitter :: "heap \<Rightarrow> nat \<Rightarrow> heap" where
  "ensure_splitter h x =
     (if splitter (vars h x) = Unset
      then (case new_Split h x of (h1, s) \<Rightarrow>
              h1\<lparr>vars := (vars h1)(x := (vars h1 x)\<lparr>splitter := Ref s\<rparr>)\<rparr>)
      else h)"

text \<open>
  The loop \<^verbatim>\<open>for i, x in enumerate(inputs)\<close> of \<^verbatim>\<open>Function.__call__\<close>, from index
  \<open>i\<close> on. A method call on a splitter that is None is an AttributeError.
\<close>

fun link_inputs :: "heap \<Rightarrow> nat \<Rightarrow> nat \<Rightarrow> nat list \<Rightarrow> heap \<times> error option" where
  "link_inputs h f i [] = (h, None)"
| "link_inputs h f i (x # xs) =
     (let h1 = ensure_splitter h x in
      case splitter (vars h1 x) of
        Unset \<Rightarrow> (h1, Some AttributeError)
      | Null \<Rightarrow> (h1, Some AttributeError)
      | Ref s \<Rightarrow>
          (case add_branch h1 s of
             (h2, Inl e) \<Rightarrow> (h2, Some e)
           | (h2, Inr out) \<Rightarrow>
               (case inputs (funcs h2 f) of
                  None \<Rightarrow> (h2, Some TypeError)
                | Some ins \<Rightarrow>
                    if i < length ins
                    then link_inputs
                           (h2\<lparr>funcs := (funcs h2)(f := (funcs h2 f)\<lparr>inputs := Some (ins[i := out])\<rparr>)\<rparr>)
                           f (Suc i) xs
                    else (h2, Some IndexError))))"

text \<open>\<^verbatim>\<open>max(x.rank for x in self.inputs)\<close>: ValueError on an empty sequence.\<close>

fun max_rank :: "nat list \<Rightarrow> error + nat" where
  "max_rank [] = Inl ValueError"
| "max_rank (r # rs) = Inr (fold max rs r)"

text \<open>\<^verbatim>\<open>list(Variable(y) for y in outputs)\<close>\<close>

fun new_Variables :: "heap \<Rightarrow> raw list \<Rightarrow> heap \<times> nat list" where
  "new_Variables h [] = (h, [])"
| "new_Variables h (y # ys) =
     (case new_Variable h y of (h1, v) \<Rightarrow>
        (case new_Variables h1 ys of (h2, vs) \<Rightarrow> (h2, v # vs)))"

text \<open>\<^verbatim>\<open>for y in self.outputs: y.set_creator(self)\<close>\<close>

fun set_creators :: "heap \<Rightarrow> nat \<Rightarrow> nat list \<Rightarrow> heap \<times> error option" where
  "set_creators h f [] = (h, None)"
| "set_creators h f (y # ys) =
     (case set_creator h y f of
        (h1, Some e) \<Rightarrow> (h1, Some e)
      | (h1, None) \<Rightarrow> set_creators h1 f ys)"

text \<open>What \<^verbatim>\<open>__call__\<close> returns: the single output variable, or the list of outputs.\<close>

datatype ret = Single nat | Multiple "nat list"

text \<open>
  \<^verbatim>\<open>Function.__call__(self, *inputs)\<close> on the node at address \<open>f\<close>, of class
  \<open>cls\<close>. An exception leaves the heap as it was when it was raised.
\<close>

definition call :: "'g operation \<Rightarrow> heap \<Rightarrow> nat \<Rightarrow> nat list \<Rightarrow> heap \<times> (error + ret)" where
  "call cls h f xs =
     (let h0 = h\<lparr>funcs := (funcs h)(f := (funcs h f)\<lparr>inputs := Some xs\<rparr>)\<rparr> in
      case link_inputs h0 f 0 xs of
        (h1, Some e) \<Rightarrow> (h1, Inl e)
      | (h1, None) \<Rightarrow>
          (case inputs (funcs h1 f) of
             None \<Rightarrow> (h1, Inl TypeError)
           | Some ins \<Rightarrow>
               (case max_rank (map (\<lambda>x. vrank (vars h1 x)) ins) of
                  Inl e \<Rightarrow> (h1, Inl e)
                | Inr r \<Rightarrow>
                    (let h2 = h1\<lparr>funcs := (funcs h1)(f := (funcs h1 f)\<lparr>rank := Some r\<rparr>)\<rparr> in
                     case forward cls (map (\<lambda>x. data (vars h2 x)) ins) of
                       Inl e \<Rightarrow> (h2, Inl e)
                     | Inr ys \<Rightarrow>
                         (case new_Variables h2 ys of (h3, outs) \<Rightarrow>
                            (let h4 = h3\<lparr>funcs := (funcs h3)(f := (funcs h3 f)\<lparr>outputs := Some outs\<rparr>)\<rparr> in
                             case set_creators h4 f outs of
                               (h5, Some e) \<Rightarrow> (h5, Inl e)
                             | (h5, None) \<Rightarrow>
                                 (h5, Inr (if length outs = 1 then Single (outs ! 0)
                                           else Multiple outs))))))))"

text \<open>\<^verbatim>\<open>Function.forget\<close>: iterating over None is a TypeError.\<close>

definition clear_creator :: "nat \<Rightarrow> heap \<Rightarrow> heap" where
  "clear_creator y h = h\<lparr>vars := (vars h)(y := (vars h y)\<lparr>creator := None\<rparr>)\<rparr>"

definition clear_splitter :: "nat \<Rightarrow> heap \<Rightarrow> heap" where
  "clear_splitter x h = h\<lparr>vars := (vars h)(x := (vars h x)\<lparr>splitter := Null\<rparr>)\<rparr>"

definition forget :: "heap \<Rightarrow> nat \<Rightarrow> heap \<times> error option" where
  "forget h f =
     (case outputs (funcs h f) of
        None \<Rightarrow> (h, Some TypeError)
      | Some outs \<Rightarrow>
          (let h1 = fold clear_creator outs h in
           case inputs (funcs h1 f) of
             None \<Rightarrow> (h1, Some TypeError)
           | Some ins \<Rightarrow>
               (let h2 = fold clear_splitter ins h1 in
                (h2\<lparr>funcs := (funcs h2)(f := (funcs h2 f)\<lparr>inputs := None, outputs := None\<rparr>)\<rparr>,
                 None))))"

section \<open>Parameters and gradients\<close>

text \<open>
  The values that may be assigned to \<^verbatim>\<open>parameters\<close>: a tuple or a list of object
  references, or None. \<^verbatim>\<open>values != ()\<close> is false for the empty tuple only.
\<close>

datatype pyvalue = PyTuple "nat list" | PyList "nat list" | PyNone

definition Function_parameters :: "heap \<Rightarrow> nat \<Rightarrow> pyvalue" where
  "Function_parameters h f = PyTuple []"

definition Function_set_parameters :: "heap \<Rightarrow> nat \<Rightarrow> pyvalue \<Rightarrow> heap \<times> error option" where
  "Function_set_parameters h f values =
     (if values \<noteq> PyTuple [] then (h, Some RuntimeError) else (h, None))"

definition Function_gradients :: "heap \<Rightarrow> nat \<Rightarrow> pyvalue" where
  "Function_gradients h f = PyTuple []"

definition Function_set_gradients :: "heap \<Rightarrow> nat \<Rightarrow> pyvalue \<Rightarrow> heap \<times> error option" where
  "Function_set_gradients h f values =
     (if values \<noteq> PyTuple [] then (h, Some RuntimeError) else (h, None))"

text \<open>\<^verbatim>\<open>copy.copy(self)\<close>: a new object with the same attributes.\<close>

definition copy_func :: "heap \<Rightarrow> nat \<Rightarrow> heap \<times> nat" where
  "copy_func h f =
     (h\<lparr>funcs := (funcs h)(nfuncs h := funcs h f), nfuncs := Suc (nfuncs h)\<rparr>, nfuncs h)"

definition ParameterizedFunction_call ::
  "'g operation \<Rightarrow> heap \<Rightarrow> nat \<Rightarrow> nat list \<Rightarrow> heap \<times> (error + ret)" where
  "ParameterizedFunction_call cls h f xs =
     (case copy_func h f of (h1, cp) \<Rightarrow> call cls h1 cp xs)"




text \<open>
  \<^verbatim>\<open>for name, value in zip(names, values): setattr(self, name, value)\<close>
\<close>

fun setattrs :: "func \<Rightarrow> (string \<times> nat) list \<Rightarrow> func" where
  "setattrs fn [] = fn"
| "setattrs fn ((name, v) # rest) = setattrs (fn\<lparr>attrs := (attrs fn)(name := Some v)\<rparr>) rest"

definition ParameterizedFunction_set_parameters :: "heap \<Rightarrow> nat \<Rightarrow> nat list \<Rightarrow> heap" where
  "ParameterizedFunction_set_parameters h f values =
     h\<lparr>funcs := (funcs h)(f := setattrs (funcs h f) (zip (parameter_names (funcs h f)) values))\<rparr>"

definition ParameterizedFunction_set_gradients :: "heap \<Rightarrow> nat \<Rightarrow> nat list \<Rightarrow> heap" where
  "ParameterizedFunction_set_gradients h f values =
     h\<lparr>funcs := (funcs h)(f := setattrs (funcs h f) (zip (gradient_names (funcs h f)) values))\<rparr>"

section \<open>Well-formed heaps\<close>

text \<open>
  Auxiliary predicates for the proofs. A variable's branch link is in order when it is
  absent or None, or refers to an allocated Split node whose single input is that variable,
  whose output list exists and whose rank is the variable's rank.
\<close>

definition branch_ok :: "heap \<Rightarrow> nat \<Rightarrow> bool" where
  "branch_ok h x =
     (case splitter (vars h x) of
        Ref s \<Rightarrow> s < nfuncs h \<and> inputs (funcs h s) = Some [x] \<and> outputs (funcs h s) \<noteq> None
                 \<and> rank (funcs h s) = Some (vrank (vars h x))
      | _ \<Rightarrow> True)"

definition branch_inv :: "heap \<Rightarrow> bool" where
  "branch_inv h = (\<forall>x < nvars h. branch_ok h x)"

text \<open>The derived variables of a variable: the outputs of its Split node, if it has one.\<close>

definition branches :: "heap \<Rightarrow> nat \<Rightarrow> nat list" where
  "branches h x =
     (case splitter (vars h x) of
        Ref s \<Rightarrow> (case outputs (funcs h s) of Some outs \<Rightarrow> outs | None \<Rightarrow> [])
      | _ \<Rightarrow> [])"

text \<open>
  The state in which the input loop of a call on node \<open>f\<close> can run from index \<open>i\<close>:
  branch links are in order, \<open>f\<close> is allocated and is no variable's Split node, the
  remaining inputs are allocated variables whose splitter is not None, and the node's input
  list has room for them.
\<close>

definition linkable :: "heap \<Rightarrow> nat \<Rightarrow> nat \<Rightarrow> nat list \<Rightarrow> bool" where
  "linkable h f i xs \<longleftrightarrow>
     branch_inv h \<and> f < nfuncs h
     \<and> (\<forall>x < nvars h. splitter (vars h x) \<noteq> Ref f)
     \<and> (\<forall>x \<in> set xs. x < nvars h \<and> splitter (vars h x) \<noteq> Null)
     \<and> (case inputs (funcs h f) of Some l \<Rightarrow> i + length xs = length l | None \<Rightarrow> False)"

text \<open>
  What one iteration of the loop does to the heap, for the input \<open>x\<close> at index
  \<open>i\<close>: \<open>s\<close> is the Split node of \<open>x\<close> (new, or the one it had), \<open>S\<close> that
  node before the branch is added and \<open>outs\<close> its outputs so far.
\<close>

definition step_rel ::
  "heap \<Rightarrow> nat \<Rightarrow> nat \<Rightarrow> nat \<Rightarrow> heap \<Rightarrow> nat \<Rightarrow> func \<Rightarrow> nat list \<Rightarrow> nat list \<Rightarrow> bool" where
  "step_rel h f i x h3 s S outs l \<longleftrightarrow>
      inputs (funcs h f) = Some l \<and> i < length l
    \<and> s \<noteq> f \<and> s < nfuncs h3 \<and> nfuncs h \<le> nfuncs h3
    \<and> (splitter (vars h x) = Unset \<and> s = nfuncs h \<and> outs = []
       \<or> splitter (vars h x) = Ref s \<and> s < nfuncs h \<and> S = funcs h s)
    \<and> inputs S = Some [x] \<and> outputs S = Some outs \<and> rank S = Some (vrank (vars h x))
    \<and> nvars h3 = Suc (nvars h)
    \<and> vars h3 = (vars h)(x := (vars h x)\<lparr>splitter := Ref s\<rparr>,
                          nvars h := \<lparr>data = data (vars h x), vrank = vrank (vars h x),
                                      creator = Some s, grad = None, splitter = Unset\<rparr>)
    \<and> funcs h3 = (funcs h)(s := S\<lparr>outputs := Some (outs @ [nvars h])\<rparr>,
                            f := (funcs h f)\<lparr>inputs := Some (l[i := nvars h])\<rparr>)"

text \<open>The state in which node \<open>f\<close> can be called on the inputs \<open>xs\<close>.\<close>

definition callable :: "heap \<Rightarrow> nat \<Rightarrow> nat list \<Rightarrow> bool" where
  "callable h f xs \<longleftrightarrow>
     branch_inv h \<and> f < nfuncs h
     \<and> (\<forall>x < nvars h. splitter (vars h x) \<noteq> Ref f)
     \<and> (\<forall>x \<in> set xs. x < nvars h \<and> splitter (vars h x) \<noteq> Null)"

section \<open>Sequences of invocations\<close>







section \<open>Example objects\<close>

text \<open>
  A gradient store with two arrays, an operation that implements all four backend
  methods, and a heap with one leaf variable (address 0) and one function node (address 0)
  that declares a parameter W and a gradient gW.
\<close>

definition ex_store :: "int gstore" where
  "ex_store = \<lparr>cells = (\<lambda>a. if a = 0 then 5 else if a = 1 then 7 else 0), gnext = 2\<rparr>"

definition ex_op :: "nat operation" where
  "ex_op =
     \<lparr>forward_cpu_impl = Some (\<lambda>xs. Inr [\<lparr>ty = Ndarray, ident = 100\<rparr>]),
      forward_gpu_impl = Some (\<lambda>xs. Inr [\<lparr>ty = GPUArray, ident = 101\<rparr>]),
      backward_cpu_impl = Some (\<lambda>xs gys. Inr gys),
      backward_gpu_impl = Some (\<lambda>xs gys. Inr (map (\<lambda>_. None) gys))\<rparr>"

definition ex_heap :: heap where
  "ex_heap =
     \<lparr>vars = (\<lambda>_. \<lparr>data = \<lparr>ty = Ndarray, ident = 0\<rparr>, vrank = 0, creator = None,
                   grad = None, splitter = Unset\<rparr>),
      nvars = 1,
      funcs = (\<lambda>_. \<lparr>inputs = None, outputs = None, rank = None,
                    parameter_names = [''W''], gradient_names = [''gW''],
                    attrs = (\<lambda>n. if n = ''W'' then Some 10 else if n = ''gW'' then Some 11 else None)\<rparr>),
      nfuncs = 1\<rparr>"

text \<open>
  A heap with a second variable (address 1) of rank 3 whose raw value is a GPUArray.
\<close>

definition ex_heap2 :: heap where
  "ex_heap2 =
     ex_heap\<lparr>vars := (vars ex_heap)(1 := \<lparr>data = \<lparr>ty = GPUArray, ident = 1\<rparr>, vrank = 3,
                                          creator = None, grad = None, splitter = Unset\<rparr>),
             nvars := 2\<rparr>"


text \<open>The example heap after the example operation has been called on the leaf.\<close>

definition ex_linked :: heap where
  "ex_linked = fst (call ex_op ex_heap 0 [0])"

section \<open>Properties of the dispatch\<close>

lemma is_gpu_input_iff: "is_gpu_input raws \<longleftrightarrow> (\<exists>x \<in> set raws. ty x = GPUArray)"
  by (simp add: is_gpu_input_def list_ex_iff)

text \<open>
  Claim C6. Function.forward takes the GPU path exactly when at least one of the raw
  values in its argument \<^verbatim>\<open>inputs\<close> is a GPUArray, and the CPU path otherwise;
  Function.backward decides in the same way, from the \<^verbatim>\<open>inputs\<close> argument of that
  call alone (the gradients it is given play no part in the choice).
\<close>

theorem dispatch_by_inputs:
  "forward cls raws =
     (if \<exists>x \<in> set raws. ty x = GPUArray then forward_gpu cls raws else forward_cpu cls raws)
   \<and> backward cls raws gys =
     (if \<exists>x \<in> set raws. ty x = GPUArray then backward_gpu cls raws gys
      else backward_cpu cls raws gys)"
  by (simp add: forward_def backward_def is_gpu_input_iff)

theorem dispatch_by_inputs_witness:
  "forward ex_op [\<lparr>ty = Ndarray, ident = 0\<rparr>, \<lparr>ty = GPUArray, ident = 1\<rparr>]
     = Inr [\<lparr>ty = GPUArray, ident = 101\<rparr>]
   \<and> backward ex_op [\<lparr>ty = Ndarray, ident = 0\<rparr>]
       [Some 7]
     = Inr [Some 7]"
proof -
  let ?host = "\<lparr>ty = Ndarray, ident = 0\<rparr>" and ?dev = "\<lparr>ty = GPUArray, ident = 1\<rparr>"
  have "forward ex_op [?host, ?dev] = forward_gpu ex_op [?host, ?dev]"
    using dispatch_by_inputs [of ex_op "[?host, ?dev]"] by simp
  moreover have "backward ex_op [?host] [Some 7]
      = backward_cpu ex_op [?host] [Some 7]"
    using dispatch_by_inputs [of ex_op "[?host]"] by simp
  ultimately show ?thesis
    by (simp add: ex_op_def forward_gpu_def backward_cpu_def)
qed

section \<open>The default backward\<close>

text \<open>
  Claim C9. An operation that overrides neither backward method returns, on the CPU path,
  on the GPU path and through the dispatching \<^verbatim>\<open>backward\<close>, a tuple of None with one
  element per input; accumulating such a tuple in Split.backward yields None and changes no
  gradient array.
\<close>

theorem default_backward_inert:
  fixes st :: "'a::plus gstore"
  assumes "backward_cpu_impl cls = None" and "backward_gpu_impl cls = None"
  shows "backward_cpu cls raws gys = Inr (replicate (length raws) None)
       \<and> backward_gpu cls raws gys = Inr (replicate (length raws) None)
       \<and> backward cls raws gys = Inr (replicate (length raws) None)
       \<and> Split_backward st raws' (replicate (length raws) None) = (st, [None])"
proof -
  have m: "map (\<lambda>_. None) raws = replicate (length raws) None" for raws :: "raw list"
    by (simp add: map_replicate_const)
  have acc: "accumulate n st None (replicate k None) = (st, None)" for n k
    by (induction k) simp_all
  show ?thesis
    using assms by (simp add: backward_def backward_cpu_def backward_gpu_def m Split_backward_def acc)
qed

theorem default_backward_inert_witness:
  "backward_cpu_impl (Function_base :: nat operation) = None
   \<and> backward_gpu_impl (Function_base :: nat operation) = None
   \<and> backward (Function_base :: nat operation) [\<lparr>ty = Ndarray, ident = 0\<rparr>, \<lparr>ty = GPUArray, ident = 1\<rparr>] [Some 0]
       = Inr [None, None]
   \<and> Split_backward ex_store [] [None, None] = (ex_store, [None])"
proof -
  have a: "backward_cpu_impl (Function_base :: nat operation) = None"
    and b: "backward_gpu_impl (Function_base :: nat operation) = None"
    by (simp_all add: Function_base_def)
  show ?thesis
    using a b default_backward_inert [OF a b, of "[\<lparr>ty = Ndarray, ident = 0\<rparr>, \<lparr>ty = GPUArray, ident = 1\<rparr>]" "[Some 0]" ex_store "[]"]
    by (simp add: numeral_2_eq_2)
qed

section \<open>Accumulation in Split.backward\<close>

lemma present_simps [simp]:
  "present [] = []"
  "present (None # gys) = present gys"
  "present (Some a # gys) = a # present gys"
  by (simp_all add: present_def)

lemma accumulate_fresh:
  fixes st :: "'a::monoid_add gstore"
  assumes "\<forall>a \<in> set (present gys). a < b" and "b \<le> c" and "c < gnext st"
  shows "\<exists>st'. accumulate n st (Some c) gys = (st', Some c)
           \<and> gnext st' = gnext st
           \<and> cells st' c = cells st c + sum_list (map (cells st) (present gys))
           \<and> (\<forall>a. a \<noteq> c \<longrightarrow> cells st' a = cells st a)"
  using assms
proof (induction gys arbitrary: st)
  case Nil
  then show ?case by simp
next
  case (Cons g gys)
  show ?case
  proof (cases g)
    case None
    with Cons show ?thesis by simp
  next
    case (Some gy)
    let ?st1 = "iadd st c gy"
    have gy: "gy < b" using Cons.prems Some by simp
    have ne: "gy \<noteq> c" using gy Cons.prems by simp
    have "\<forall>a \<in> set (present gys). a < b" using Cons.prems Some by simp
    moreover have "c < gnext ?st1" using Cons.prems by (simp add: iadd_def)
    ultimately obtain st' where st':
      "accumulate n ?st1 (Some c) gys = (st', Some c)"
      "gnext st' = gnext ?st1"
      "cells st' c = cells ?st1 c + sum_list (map (cells ?st1) (present gys))"
      "\<forall>a. a \<noteq> c \<longrightarrow> cells st' a = cells ?st1 a"
      using Cons.IH [of ?st1] Cons.prems(2) by blast
    have same: "map (cells ?st1) (present gys) = map (cells st) (present gys)"
      using Cons.prems Some by (auto simp: iadd_def)
    have c1: "cells ?st1 c = cells st c + cells st gy" "gnext ?st1 = gnext st"
      and others: "\<And>a. a \<noteq> c \<Longrightarrow> cells ?st1 a = cells st a"
      by (simp_all add: iadd_def)
    have "accumulate n st (Some c) (g # gys) = (st', Some c)"
      using st'(1) Some by simp
    moreover have "gnext st' = gnext st" using st'(2) c1 by simp
    moreover have "cells st' c = cells st c + sum_list (map (cells st) (present (g # gys)))"
      unfolding st'(3) same c1 using Some by (simp add: add.assoc)
    moreover have "\<forall>a. a \<noteq> c \<longrightarrow> cells st' a = cells st a"
      using st'(4) others by simp
    ultimately show ?thesis by blast
  qed
qed

lemma accumulate_none:
  fixes st :: "'a::monoid_add gstore"
  assumes "present gys = []"
  shows "accumulate n st gx gys = (st, gx)"
  using assms
proof (induction gys)
  case Nil
  then show ?case by simp
next
  case (Cons g gys)
  then show ?case by (cases g) simp_all
qed

lemma accumulate_many:
  fixes st :: "'a::monoid_add gstore"
  assumes "\<forall>a \<in> set (present gys). a < gnext st" and "n \<noteq> 1" and "present gys \<noteq> []"
  shows "\<exists>st'. accumulate n st None gys = (st', Some (gnext st))
           \<and> cells st' (gnext st) = sum_list (map (cells st) (present gys))
           \<and> (\<forall>a. a < gnext st \<longrightarrow> cells st' a = cells st a)"
  using assms
proof (induction gys)
  case Nil
  then show ?case by simp
next
  case (Cons g gys)
  show ?case
  proof (cases g)
    case None
    with Cons show ?thesis by simp
  next
    case (Some gy)
    let ?c = "gnext st"
    let ?st1 = "st\<lparr>cells := (cells st)(gnext st := cells st gy), gnext := Suc (gnext st)\<rparr>"
    have c: "copy_array st gy = (?st1, ?c)" by (simp add: copy_array_def)
    have pre: "\<forall>a \<in> set (present gys). a < ?c" "gy < ?c" using Cons.prems Some by simp_all
    have "?c < gnext ?st1" by simp
    then obtain st' where st':
      "accumulate n ?st1 (Some ?c) gys = (st', Some ?c)"
      "cells st' ?c = cells ?st1 ?c + sum_list (map (cells ?st1) (present gys))"
      "\<forall>a. a \<noteq> ?c \<longrightarrow> cells st' a = cells ?st1 a"
      using accumulate_fresh [of gys ?c ?c ?st1 n] pre by blast
    have same: "map (cells ?st1) (present gys) = map (cells st) (present gys)"
      using pre by auto
    have "accumulate n st None (g # gys) = (st', Some ?c)"
      using Some Cons.prems(2) c st'(1) by simp
    moreover have "cells st' ?c = sum_list (map (cells st) (present (g # gys)))"
      unfolding st'(2) same using Some by simp
    moreover have "\<forall>a. a < ?c \<longrightarrow> cells st' a = cells st a"
      using st'(3) by simp
    ultimately show ?thesis by blast
  qed
qed

lemma accumulate_single:
  fixes st :: "'a::monoid_add gstore"
  shows "accumulate 1 st None [g] = (st, g)"
  by (cases g) simp_all

text \<open>
  Claim C1. Split.backward, given a tuple of branch gradients all of which are allocated
  arrays or None, returns a tuple of one element. The element is None exactly when no
  gradient is present; otherwise it is an array whose contents are the sum of the present
  gradients, the absent ones being skipped. No array that existed before is modified, and
  the result is one of the arrays that existed before (reuse without a copy) only when the
  tuple consists of that single gradient.
\<close>

theorem Split_backward_sum:
  fixes st :: "'a::monoid_add gstore"
  assumes "\<forall>a \<in> set (present grad_outputs). a < gnext st"
  shows "\<exists>st' gx. Split_backward st raws grad_outputs = (st', [gx])
           \<and> (gx = None \<longleftrightarrow> present grad_outputs = [])
           \<and> (\<forall>a. gx = Some a \<longrightarrow>
                 cells st' a = sum_list (map (cells st) (present grad_outputs)))
           \<and> (\<forall>a. a < gnext st \<longrightarrow> cells st' a = cells st a)
           \<and> (\<forall>a. gx = Some a \<and> a < gnext st \<longrightarrow> grad_outputs = [Some a] \<and> st' = st)"
proof (cases "present grad_outputs = []")
  case True
  then show ?thesis by (simp add: Split_backward_def accumulate_none)
next
  case False
  show ?thesis
  proof (cases "length grad_outputs = 1")
    case True
    then obtain g where g: "grad_outputs = [g]" by (cases grad_outputs) auto
    then obtain a where "g = Some a" using False by (cases g) auto
    with g show ?thesis by (simp add: Split_backward_def)
  next
    case ne: False
    obtain st' where
      "accumulate (length grad_outputs) st None grad_outputs = (st', Some (gnext st))"
      "cells st' (gnext st) = sum_list (map (cells st) (present grad_outputs))"
      "\<forall>a. a < gnext st \<longrightarrow> cells st' a = cells st a"
      using accumulate_many [OF assms ne False] by blast
    then show ?thesis using False by (simp add: Split_backward_def)
  qed
qed

theorem Split_backward_sum_witness:
  "present [Some 0, None, Some 1] = [0, 1] \<and> gnext ex_store = 2
   \<and> (\<exists>st'. Split_backward ex_store [] [Some 0, None, Some 1] = (st', [Some 2])
          \<and> cells st' 2 = 12 \<and> cells st' 0 = 5 \<and> cells st' 1 = 7)"
proof -
  have h: "\<forall>a \<in> set (present [Some 0, None, Some (1::nat)]). a < gnext ex_store"
    by (simp add: ex_store_def)
  from Split_backward_sum [OF h, of "[]"]
  obtain st' gx where
    a: "Split_backward ex_store [] [Some 0, None, Some 1] = (st', [gx])"
    and b: "gx = None \<longleftrightarrow> present [Some 0, None, Some (1::nat)] = []"
    and c: "\<forall>a. gx = Some a \<longrightarrow> cells st' a = sum_list (map (cells ex_store) (present [Some 0, None, Some 1]))"
    and d: "\<forall>a. a < gnext ex_store \<longrightarrow> cells st' a = cells ex_store a"
    by blast
  have "gx = Some 2" using a by (simp add: Split_backward_def ex_store_def copy_array_def)
  then show ?thesis using h a c d by (simp add: ex_store_def)
qed

section \<open>Parameters of the base class\<close>

text \<open>
  Claim C5. On the base class Function, \<^verbatim>\<open>parameters\<close> and \<^verbatim>\<open>gradients\<close> read as
  the empty tuple; assigning a non-empty tuple or list to either raises RuntimeError and
  leaves the heap as it was; assigning the empty tuple raises nothing and changes nothing.
\<close>

theorem base_parameters_empty:
  "Function_parameters h f = PyTuple []
   \<and> Function_gradients h f = PyTuple []
   \<and> Function_set_parameters h f (PyTuple (v # vs)) = (h, Some RuntimeError)
   \<and> Function_set_gradients h f (PyTuple (v # vs)) = (h, Some RuntimeError)
   \<and> Function_set_parameters h f (PyList (v # vs)) = (h, Some RuntimeError)
   \<and> Function_set_gradients h f (PyList (v # vs)) = (h, Some RuntimeError)
   \<and> Function_set_parameters h f (PyTuple []) = (h, None)
   \<and> Function_set_gradients h f (PyTuple []) = (h, None)"
  by (simp add: Function_parameters_def Function_gradients_def
      Function_set_parameters_def Function_set_gradients_def)

section \<open>Calling a function node\<close>

text \<open>
  Claim C10. A call with no inputs fails with the ValueError of \<^verbatim>\<open>max\<close> on an empty
  sequence, whatever the class of the node: the only effect is that the node's input list
  is the empty list, and the forward method is not reached. The same holds for the call of
  a ParameterizedFunction.
\<close>

theorem call_no_inputs:
  "call cls h f [] =
     (h\<lparr>funcs := (funcs h)(f := (funcs h f)\<lparr>inputs := Some []\<rparr>)\<rparr>, Inl ValueError)
   \<and> snd (ParameterizedFunction_call cls h f []) = Inl ValueError"
  by (simp add: call_def ParameterizedFunction_call_def copy_func_def)

section \<open>Forgetting a node\<close>

lemma fold_clear_creator:
  "vars (fold clear_creator ys h) v =
     (if v \<in> set ys then (vars h v)\<lparr>creator := None\<rparr> else vars h v)
   \<and> funcs (fold clear_creator ys h) = funcs h
   \<and> nvars (fold clear_creator ys h) = nvars h
   \<and> nfuncs (fold clear_creator ys h) = nfuncs h"
  by (induction ys arbitrary: h) (auto simp: clear_creator_def)

lemma fold_clear_splitter:
  "vars (fold clear_splitter xs h) v =
     (if v \<in> set xs then (vars h v)\<lparr>splitter := Null\<rparr> else vars h v)
   \<and> funcs (fold clear_splitter xs h) = funcs h
   \<and> nvars (fold clear_splitter xs h) = nvars h
   \<and> nfuncs (fold clear_splitter xs h) = nfuncs h"
  by (induction xs arbitrary: h) (auto simp: clear_splitter_def)

lemma ex_linked_funcs:
  "inputs (funcs ex_linked 0) = Some [1]" "outputs (funcs ex_linked 0) = Some [2]"
  by (simp_all add: ex_linked_def call_def ex_heap_def ex_op_def ensure_splitter_def
      new_Split_def add_branch_def new_Variable_def set_creator_def forward_def
      forward_cpu_def is_gpu_input_def Let_def)

text \<open>
  Claim C7. Forgetting a node that has an output list and an input list succeeds; afterwards
  the creator of every former output is None, the splitter attribute of every former input
  (the branch-derived variables the node held) is None, and the node's own inputs and
  outputs are None. The raw value of every variable is the one it had before; variables
  that were neither inputs nor outputs of the node, and all other nodes, are untouched.
\<close>

theorem forget_clears_links:
  assumes "outputs (funcs h f) = Some outs" and "inputs (funcs h f) = Some ins"
  shows "\<exists>h'. forget h f = (h', None)
           \<and> (\<forall>y \<in> set outs. creator (vars h' y) = None)
           \<and> (\<forall>x \<in> set ins. splitter (vars h' x) = Null)
           \<and> inputs (funcs h' f) = None \<and> outputs (funcs h' f) = None
           \<and> (\<forall>v. data (vars h' v) = data (vars h v))
           \<and> (\<forall>v. v \<notin> set outs \<longrightarrow> creator (vars h' v) = creator (vars h v))
           \<and> (\<forall>v. v \<notin> set ins \<longrightarrow> splitter (vars h' v) = splitter (vars h v))
           \<and> (\<forall>g. g \<noteq> f \<longrightarrow> funcs h' g = funcs h g)
           \<and> nvars h' = nvars h \<and> nfuncs h' = nfuncs h"
  using assms by (simp add: forget_def Let_def fold_clear_creator fold_clear_splitter)

theorem forget_clears_links_witness:
  "outputs (funcs ex_linked 0) = Some [2] \<and> inputs (funcs ex_linked 0) = Some [1]
   \<and> (\<exists>h'. forget ex_linked 0 = (h', None)
          \<and> creator (vars h' 2) = None \<and> splitter (vars h' 1) = Null
          \<and> inputs (funcs h' 0) = None \<and> outputs (funcs h' 0) = None
          \<and> data (vars h' 2) = data (vars ex_linked 2)
          \<and> splitter (vars h' 0) = splitter (vars ex_linked 0))"
proof -
  from forget_clears_links [OF ex_linked_funcs(2) ex_linked_funcs(1)]
  obtain h' where "forget ex_linked 0 = (h', None)"
    and "\<forall>y \<in> set [2::nat]. creator (vars h' y) = None"
    and "\<forall>x \<in> set [1::nat]. splitter (vars h' x) = Null"
    and "inputs (funcs h' 0) = None" "outputs (funcs h' 0) = None"
    and "\<forall>v. data (vars h' v) = data (vars ex_linked v)"
    and "\<forall>v. v \<notin> set [1::nat] \<longrightarrow> splitter (vars h' v) = splitter (vars ex_linked v)"
    by blast
  then show ?thesis using ex_linked_funcs by simp
qed

section \<open>The input loop of a call\<close>

lemma link_inputs_step:
  assumes "h1 = ensure_splitter h x"
    and "splitter (vars h1 x) = Ref s"
    and "inputs (funcs h1 s) = Some (z # zs)"
    and "outputs (funcs h1 s) = Some outs"
    and "rank (funcs h1 s) = Some r"
    and "inputs (funcs h1 f) = Some l"
    and "i < length l" and "s \<noteq> f"
  shows "link_inputs h f i (x # xs) =
     link_inputs
       (h1\<lparr>nvars := Suc (nvars h1),
           vars := (vars h1)(nvars h1 :=
               \<lparr>data = data (vars h1 z), vrank = r, creator = Some s, grad = None,
                splitter = Unset\<rparr>),
           funcs := (funcs h1)(s := (funcs h1 s)\<lparr>outputs := Some (outs @ [nvars h1])\<rparr>,
                               f := (funcs h1 f)\<lparr>inputs := Some (l[i := nvars h1])\<rparr>)\<rparr>)
       f (Suc i) xs"
  using assms
  by (simp add: Let_def add_branch_def new_Variable_def set_creator_def)

lemma step_fields:
  assumes "linkable h f i (x # xs)"
  shows "\<exists>h3 s S outs l.
      link_inputs h f i (x # xs) = link_inputs h3 f (Suc i) xs
    \<and> step_rel h f i x h3 s S outs l"
proof -
  from assms obtain l where l: "inputs (funcs h f) = Some l" "i < length l"
    by (auto simp: linkable_def split: option.splits)
  have x: "x < nvars h" "splitter (vars h x) \<noteq> Null" and f: "f < nfuncs h"
    and nf: "splitter (vars h x) \<noteq> Ref f" and ok: "branch_ok h x"
    using assms by (auto simp: linkable_def branch_inv_def)
  let ?h1 = "ensure_splitter h x"
  show ?thesis
  proof (cases "splitter (vars h x)")
    case Unset
    let ?s = "nfuncs h"
    let ?S = "\<lparr>inputs = Some [x], outputs = Some [], rank = Some (vrank (vars h x)),
           parameter_names = [], gradient_names = [], attrs = (\<lambda>_. None)\<rparr>"
    have h1: "vars ?h1 = (vars h)(x := (vars h x)\<lparr>splitter := Ref ?s\<rparr>)"
      "nvars ?h1 = nvars h" "funcs ?h1 = (funcs h)(?s := ?S)" "nfuncs ?h1 = Suc (nfuncs h)"
      using Unset by (simp_all add: ensure_splitter_def new_Split_def)
    have sf: "?s \<noteq> f" using f by simp
    have "link_inputs h f i (x # xs) =
     link_inputs
       (?h1\<lparr>nvars := Suc (nvars ?h1),
           vars := (vars ?h1)(nvars ?h1 :=
               \<lparr>data = data (vars ?h1 x), vrank = vrank (vars h x), creator = Some ?s, grad = None,
                splitter = Unset\<rparr>),
           funcs := (funcs ?h1)(?s := (funcs ?h1 ?s)\<lparr>outputs := Some ([] @ [nvars ?h1])\<rparr>,
                               f := (funcs ?h1 f)\<lparr>inputs := Some (l[i := nvars ?h1])\<rparr>)\<rparr>)
       f (Suc i) xs" (is "_ = link_inputs ?h3 f (Suc i) xs")
      by (rule link_inputs_step [OF refl, where zs = "[]"]) (use h1 l sf in simp_all)
    moreover have "nvars ?h3 = Suc (nvars h)" "nfuncs ?h3 = Suc (nfuncs h)"
      using h1 by simp_all
    moreover have "vars ?h3 = (vars h)(x := (vars h x)\<lparr>splitter := Ref ?s\<rparr>,
                          nvars h := \<lparr>data = data (vars h x), vrank = vrank (vars h x),
                                      creator = Some ?s, grad = None, splitter = Unset\<rparr>)"
      using h1 by simp
    moreover have "funcs ?h3 = (funcs h)(?s := ?S\<lparr>outputs := Some ([] @ [nvars h])\<rparr>,
                            f := (funcs h f)\<lparr>inputs := Some (l[i := nvars h])\<rparr>)"
      using h1 sf by simp
    ultimately have F: "link_inputs h f i (x # xs) = link_inputs ?h3 f (Suc i) xs
      \<and> nvars ?h3 = Suc (nvars h) \<and> nfuncs ?h3 = Suc (nfuncs h)
      \<and> vars ?h3 = (vars h)(x := (vars h x)\<lparr>splitter := Ref ?s\<rparr>,
                          nvars h := \<lparr>data = data (vars h x), vrank = vrank (vars h x),
                                      creator = Some ?s, grad = None, splitter = Unset\<rparr>)
      \<and> funcs ?h3 = (funcs h)(?s := ?S\<lparr>outputs := Some ([] @ [nvars h])\<rparr>,
                            f := (funcs h f)\<lparr>inputs := Some (l[i := nvars h])\<rparr>)"
      by blast
    show ?thesis
      apply (rule exI [of _ ?h3], rule exI [of _ ?s], rule exI [of _ ?S])
      apply (rule exI [of _ "[]"], rule exI [of _ l])
      apply (insert F l sf Unset h1(2,4))
      apply (simp add: step_rel_def)
      done
  next
    case Null
    with x show ?thesis by simp
  next
    case (Ref s)
    then have h1: "?h1 = h" by (simp add: ensure_splitter_def)
    from ok Ref obtain outs where s: "s < nfuncs h" "inputs (funcs h s) = Some [x]"
      "outputs (funcs h s) = Some outs" "rank (funcs h s) = Some (vrank (vars h x))"
      by (auto simp: branch_ok_def)
    have sf: "s \<noteq> f" using nf Ref by simp
    have "link_inputs h f i (x # xs) =
     link_inputs
       (?h1\<lparr>nvars := Suc (nvars ?h1),
           vars := (vars ?h1)(nvars ?h1 :=
               \<lparr>data = data (vars ?h1 x), vrank = vrank (vars h x), creator = Some s, grad = None,
                splitter = Unset\<rparr>),
           funcs := (funcs ?h1)(s := (funcs ?h1 s)\<lparr>outputs := Some (outs @ [nvars ?h1])\<rparr>,
                               f := (funcs ?h1 f)\<lparr>inputs := Some (l[i := nvars ?h1])\<rparr>)\<rparr>)
       f (Suc i) xs" (is "_ = link_inputs ?h3 f (Suc i) xs")
      by (rule link_inputs_step [OF refl, where zs = "[]"]) (use h1 l sf s Ref in simp_all)
    moreover have "nvars ?h3 = Suc (nvars h)" "nfuncs ?h3 = nfuncs h"
      using h1 by simp_all
    moreover have "vars ?h3 = (vars h)(x := (vars h x)\<lparr>splitter := Ref s\<rparr>,
                          nvars h := \<lparr>data = data (vars h x), vrank = vrank (vars h x),
                                      creator = Some s, grad = None, splitter = Unset\<rparr>)"
    proof -
      have "(vars h x)\<lparr>splitter := Ref s\<rparr> = vars h x" using Ref by simp
      then show ?thesis using h1 by simp
    qed
    moreover have "funcs ?h3 = (funcs h)(s := (funcs h s)\<lparr>outputs := Some (outs @ [nvars h])\<rparr>,
                            f := (funcs h f)\<lparr>inputs := Some (l[i := nvars h])\<rparr>)"
      using h1 by simp
    ultimately have F: "link_inputs h f i (x # xs) = link_inputs ?h3 f (Suc i) xs
      \<and> nvars ?h3 = Suc (nvars h) \<and> nfuncs ?h3 = nfuncs h
      \<and> vars ?h3 = (vars h)(x := (vars h x)\<lparr>splitter := Ref s\<rparr>,
                          nvars h := \<lparr>data = data (vars h x), vrank = vrank (vars h x),
                                      creator = Some s, grad = None, splitter = Unset\<rparr>)
      \<and> funcs ?h3 = (funcs h)(s := (funcs h s)\<lparr>outputs := Some (outs @ [nvars h])\<rparr>,
                            f := (funcs h f)\<lparr>inputs := Some (l[i := nvars h])\<rparr>)"
      by blast
    show ?thesis
      apply (rule exI [of _ ?h3], rule exI [of _ s], rule exI [of _ "funcs h s"])
      apply (rule exI [of _ outs], rule exI [of _ l])
      apply (insert F l sf Ref s h1)
      apply (simp add: step_rel_def)
      done
  qed
qed

lemma step_linkable:
  assumes L: "linkable h f i (x # xs)" and S: "step_rel h f i x h3 s S outs l"
  shows "linkable h3 f (Suc i) xs"
proof -
  have x: "x < nvars h" and f: "f < nfuncs h"
    and nf: "\<forall>y < nvars h. splitter (vars h y) \<noteq> Ref f"
    and inv: "\<forall>y < nvars h. branch_ok h y"
    and rest: "\<forall>y \<in> set xs. y < nvars h \<and> splitter (vars h y) \<noteq> Null"
    and len: "Suc i + length xs = length l"
    using L S by (auto simp: linkable_def branch_inv_def step_rel_def)
  have v3: "vars h3 = (vars h)(x := (vars h x)\<lparr>splitter := Ref s\<rparr>,
                          nvars h := \<lparr>data = data (vars h x), vrank = vrank (vars h x),
                                      creator = Some s, grad = None, splitter = Unset\<rparr>)"
    and f3: "funcs h3 = (funcs h)(s := S\<lparr>outputs := Some (outs @ [nvars h])\<rparr>,
                            f := (funcs h f)\<lparr>inputs := Some (l[i := nvars h])\<rparr>)"
    and n3: "nvars h3 = Suc (nvars h)" "nfuncs h \<le> nfuncs h3" "s < nfuncs h3" "s \<noteq> f"
    and S': "inputs S = Some [x]" "outputs S = Some outs" "rank S = Some (vrank (vars h x))"
    and cs: "splitter (vars h x) = Unset \<and> s = nfuncs h \<or>
             splitter (vars h x) = Ref s \<and> s < nfuncs h \<and> S = funcs h s"
    using S by (auto simp: step_rel_def)
  have ok3: "branch_ok h3 y" if y: "y < nvars h3" for y
  proof -
    consider "y = nvars h" | "y = x" | "y < nvars h" "y \<noteq> x" using y n3 by force
    then show ?thesis
    proof cases
      case 1
      then show ?thesis using v3 by (simp add: branch_ok_def)
    next
      case 2
      then show ?thesis using v3 f3 n3 S' x by (simp add: branch_ok_def)
    next
      case 3
      then have same: "vars h3 y = vars h y" using v3 by simp
      show ?thesis
      proof (cases "splitter (vars h y)")
        case (Ref s')
        with inv 3 have s': "s' < nfuncs h" "inputs (funcs h s') = Some [y]"
          "outputs (funcs h s') \<noteq> None" "rank (funcs h s') = Some (vrank (vars h y))"
          by (auto simp: branch_ok_def)
        have "s' \<noteq> f" using nf 3 Ref by auto
        moreover have "s' \<noteq> s" using cs s' 3 S' by auto
        ultimately have "funcs h3 s' = funcs h s'" using f3 by simp
        then show ?thesis using same Ref s' n3 by (simp add: branch_ok_def)
      qed (simp_all add: branch_ok_def same)
    qed
  qed
  have "\<forall>y < nvars h3. splitter (vars h3 y) \<noteq> Ref f"
    using nf v3 n3 by (auto simp: less_Suc_eq)
  moreover have "\<forall>y \<in> set xs. y < nvars h3 \<and> splitter (vars h3 y) \<noteq> Null"
    using rest v3 n3 by auto
  moreover have "inputs (funcs h3 f) = Some (l[i := nvars h])" using f3 by simp
  ultimately show ?thesis
    using ok3 f n3 len by (simp add: linkable_def branch_inv_def)
qed

lemma link_inputs_ok:
  "linkable h f i xs \<Longrightarrow>
     \<exists>h'. link_inputs h f i xs = (h', None) \<and> linkable h' f (i + length xs) []"
proof (induction xs arbitrary: h i)
  case Nil
  then show ?case by simp
next
  case (Cons x xs)
  from step_fields [OF Cons.prems] obtain h3 s S outs l where
    eq: "link_inputs h f i (x # xs) = link_inputs h3 f (Suc i) xs"
    and st: "step_rel h f i x h3 s S outs l" by blast
  from Cons.IH [OF step_linkable [OF Cons.prems st]] show ?case
    using eq by simp
qed

lemma step_rel_frame:
  assumes L: "linkable h f i (x # xs)" and S: "step_rel h f i x h3 s S outs l"
  shows "nvars h3 = Suc (nvars h)" and "nfuncs h \<le> nfuncs h3"
    and "v < nvars h \<Longrightarrow> data (vars h3 v) = data (vars h v) \<and> vrank (vars h3 v) = vrank (vars h v)
           \<and> creator (vars h3 v) = creator (vars h v) \<and> grad (vars h3 v) = grad (vars h v)"
    and "g < nfuncs h \<Longrightarrow> rank (funcs h3 g) = rank (funcs h g) \<and> attrs (funcs h3 g) = attrs (funcs h g)
           \<and> parameter_names (funcs h3 g) = parameter_names (funcs h g)
           \<and> gradient_names (funcs h3 g) = gradient_names (funcs h g)
           \<and> (g \<noteq> f \<longrightarrow> inputs (funcs h3 g) = inputs (funcs h g))"
    and "outputs (funcs h3 f) = outputs (funcs h f)"
    and "vars h3 (nvars h) = \<lparr>data = data (vars h x), vrank = vrank (vars h x),
                                      creator = Some s, grad = None, splitter = Unset\<rparr>"
    and "x < nvars h"
  using S L by (auto simp: step_rel_def linkable_def)

lemma loop_frame:
  "linkable h f i xs \<Longrightarrow> link_inputs h f i xs = (h', r) \<Longrightarrow>
     nvars h' = nvars h + length xs \<and> nfuncs h \<le> nfuncs h'
     \<and> (\<forall>v < nvars h. data (vars h' v) = data (vars h v) \<and> vrank (vars h' v) = vrank (vars h v)
           \<and> creator (vars h' v) = creator (vars h v) \<and> grad (vars h' v) = grad (vars h v))
     \<and> (\<forall>g < nfuncs h. rank (funcs h' g) = rank (funcs h g) \<and> attrs (funcs h' g) = attrs (funcs h g)
           \<and> parameter_names (funcs h' g) = parameter_names (funcs h g)
           \<and> gradient_names (funcs h' g) = gradient_names (funcs h g)
           \<and> (g \<noteq> f \<longrightarrow> inputs (funcs h' g) = inputs (funcs h g)))
     \<and> outputs (funcs h' f) = outputs (funcs h f)"
proof (induction xs arbitrary: h i)
  case Nil
  then show ?case by simp
next
  case (Cons x xs)
  from step_fields [OF Cons.prems(1)] obtain h3 s S outs l where
    eq: "link_inputs h f i (x # xs) = link_inputs h3 f (Suc i) xs"
    and st: "step_rel h f i x h3 s S outs l" by blast
  note fr = step_rel_frame [OF Cons.prems(1) st]
  have "link_inputs h3 f (Suc i) xs = (h', r)" using eq Cons.prems(2) by simp
  from Cons.IH [OF step_linkable [OF Cons.prems(1) st] this]
  have IH: "nvars h' = nvars h3 + length xs" "nfuncs h3 \<le> nfuncs h'"
    "\<And>v. v < nvars h3 \<Longrightarrow> data (vars h' v) = data (vars h3 v) \<and> vrank (vars h' v) = vrank (vars h3 v)
           \<and> creator (vars h' v) = creator (vars h3 v) \<and> grad (vars h' v) = grad (vars h3 v)"
    "\<And>g. g < nfuncs h3 \<Longrightarrow> rank (funcs h' g) = rank (funcs h3 g) \<and> attrs (funcs h' g) = attrs (funcs h3 g)
           \<and> parameter_names (funcs h' g) = parameter_names (funcs h3 g)
           \<and> gradient_names (funcs h' g) = gradient_names (funcs h3 g)
           \<and> (g \<noteq> f \<longrightarrow> inputs (funcs h' g) = inputs (funcs h3 g))"
    "outputs (funcs h' f) = outputs (funcs h3 f)"
    by simp_all
  have a: "nvars h' = nvars h + length (x # xs)" using IH(1) fr(1) by simp
  have b: "nfuncs h \<le> nfuncs h'" using IH(2) fr(2) by simp
  have c: "data (vars h' v) = data (vars h v) \<and> vrank (vars h' v) = vrank (vars h v)
           \<and> creator (vars h' v) = creator (vars h v) \<and> grad (vars h' v) = grad (vars h v)"
    if "v < nvars h" for v
    using IH(3) [of v] fr(3) [of v] fr(1) that by simp
  have d: "rank (funcs h' g) = rank (funcs h g) \<and> attrs (funcs h' g) = attrs (funcs h g)
           \<and> parameter_names (funcs h' g) = parameter_names (funcs h g)
           \<and> gradient_names (funcs h' g) = gradient_names (funcs h g)
           \<and> (g \<noteq> f \<longrightarrow> inputs (funcs h' g) = inputs (funcs h g))"
    if "g < nfuncs h" for g
    using IH(4) [of g] fr(4) [of g] fr(2) that by simp
  have e: "outputs (funcs h' f) = outputs (funcs h f)" using IH(5) fr(5) by simp
  show ?case using a b c d e by blast
qed

lemma loop_inputs:
  "linkable h f i xs \<Longrightarrow> link_inputs h f i xs = (h', r) \<Longrightarrow> inputs (funcs h f) = Some l \<Longrightarrow>
     inputs (funcs h' f) = Some (take i l @ [nvars h ..< nvars h + length xs])"
proof (induction xs arbitrary: h i l)
  case Nil
  then show ?case by (simp add: linkable_def)
next
  case (Cons x xs)
  from step_fields [OF Cons.prems(1)] obtain h3 s S outs l' where
    eq: "link_inputs h f i (x # xs) = link_inputs h3 f (Suc i) xs"
    and st: "step_rel h f i x h3 s S outs l'" by blast
  have l: "l' = l" "i < length l" "inputs (funcs h3 f) = Some (l[i := nvars h])"
    "nvars h3 = Suc (nvars h)"
    using st Cons.prems(3) by (auto simp: step_rel_def)
  have "link_inputs h3 f (Suc i) xs = (h', r)" using eq Cons.prems(2) by simp
  from Cons.IH [OF step_linkable [OF Cons.prems(1) st] this l(3)]
  have "inputs (funcs h' f) =
          Some (take (Suc i) (l[i := nvars h]) @ [Suc (nvars h) ..< Suc (nvars h) + length xs])"
    using l(4) by simp
  moreover have "take (Suc i) (l[i := nvars h]) = take i l @ [nvars h]"
    using l(2) by (simp add: take_Suc_conv_app_nth)
  moreover have "[nvars h ..< nvars h + Suc (length xs)]
      = nvars h # [Suc (nvars h) ..< nvars h + Suc (length xs)]"
    by (rule upt_conv_Cons) simp
  ultimately show ?case by simp
qed

lemma loop_derived:
  "linkable h f i xs \<Longrightarrow> link_inputs h f i xs = (h', r) \<Longrightarrow> j < length xs \<Longrightarrow>
     data (vars h' (nvars h + j)) = data (vars h (xs ! j))
     \<and> vrank (vars h' (nvars h + j)) = vrank (vars h (xs ! j))
     \<and> creator (vars h' (nvars h + j)) \<noteq> Some f
     \<and> creator (vars h' (nvars h + j)) \<noteq> None"
proof (induction xs arbitrary: h i j)
  case Nil
  then show ?case by simp
next
  case (Cons x xs)
  from step_fields [OF Cons.prems(1)] obtain h3 s S outs l where
    eq: "link_inputs h f i (x # xs) = link_inputs h3 f (Suc i) xs"
    and st: "step_rel h f i x h3 s S outs l" by blast
  note fr = step_rel_frame [OF Cons.prems(1) st]
  have sf: "s \<noteq> f" using st by (simp add: step_rel_def)
  have L3: "linkable h3 f (Suc i) xs" by (rule step_linkable [OF Cons.prems(1) st])
  have run: "link_inputs h3 f (Suc i) xs = (h', r)" using eq Cons.prems(2) by simp
  show ?case
  proof (cases j)
    case 0
    have "nvars h < nvars h3" using fr(1) by simp
    with loop_frame [OF L3 run] have
      "data (vars h' (nvars h)) = data (vars h3 (nvars h))"
      "vrank (vars h' (nvars h)) = vrank (vars h3 (nvars h))"
      "creator (vars h' (nvars h)) = creator (vars h3 (nvars h))"
      by simp_all
    then show ?thesis using 0 fr(6) sf by simp
  next
    case (Suc k)
    then have k: "k < length xs" using Cons.prems(3) by simp
    have "xs ! k < nvars h" using Cons.prems(1) k by (simp add: linkable_def)
    then have "data (vars h3 (xs ! k)) = data (vars h (xs ! k))"
      "vrank (vars h3 (xs ! k)) = vrank (vars h (xs ! k))"
      using fr(3) by simp_all
    then show ?thesis using Cons.IH [OF L3 run k] Suc fr(1) by simp
  qed
qed

lemma step_rel_branches:
  assumes L: "linkable h f i (x # xs)" and S: "step_rel h f i x h3 s S outs l"
  shows "branches h3 x = branches h x @ [nvars h]"
    and "y < nvars h \<Longrightarrow> y \<noteq> x \<Longrightarrow>
           branches h3 y = branches h y \<and> splitter (vars h3 y) = splitter (vars h y)"
    and "splitter (vars h3 x) = Ref s"
    and "splitter (vars h x) = Unset \<and> s = nfuncs h \<or> splitter (vars h x) = Ref s"
    and "s < nfuncs h3"
proof -
  have x: "x < nvars h"
    and nf: "\<forall>y < nvars h. splitter (vars h y) \<noteq> Ref f"
    and inv: "\<forall>y < nvars h. branch_ok h y"
    using L by (auto simp: linkable_def branch_inv_def)
  have v3: "vars h3 = (vars h)(x := (vars h x)\<lparr>splitter := Ref s\<rparr>,
                          nvars h := \<lparr>data = data (vars h x), vrank = vrank (vars h x),
                                      creator = Some s, grad = None, splitter = Unset\<rparr>)"
    and f3: "funcs h3 = (funcs h)(s := S\<lparr>outputs := Some (outs @ [nvars h])\<rparr>,
                            f := (funcs h f)\<lparr>inputs := Some (l[i := nvars h])\<rparr>)"
    and n3: "s < nfuncs h3" "s \<noteq> f"
    and S': "inputs S = Some [x]" "outputs S = Some outs"
    and cs: "splitter (vars h x) = Unset \<and> s = nfuncs h \<and> outs = [] \<or>
             splitter (vars h x) = Ref s \<and> s < nfuncs h \<and> S = funcs h s"
    using S by (auto simp: step_rel_def)
  show "splitter (vars h3 x) = Ref s" using v3 x by simp
  show "s < nfuncs h3" by (rule n3)
  show "splitter (vars h x) = Unset \<and> s = nfuncs h \<or> splitter (vars h x) = Ref s"
    using cs by blast
  have "branches h3 x = outs @ [nvars h]"
    using v3 f3 n3 x by (simp add: branches_def)
  moreover have "branches h x = outs"
    using cs S' by (auto simp: branches_def)
  ultimately show "branches h3 x = branches h x @ [nvars h]" by simp
  show "branches h3 y = branches h y \<and> splitter (vars h3 y) = splitter (vars h y)"
    if y: "y < nvars h" "y \<noteq> x"
  proof -
    have same: "vars h3 y = vars h y" using v3 y by simp
    show ?thesis
    proof (cases "splitter (vars h y)")
      case (Ref s')
      with inv y have s': "s' < nfuncs h" "inputs (funcs h s') = Some [y]"
        by (auto simp: branch_ok_def)
      have "s' \<noteq> f" using nf y Ref by auto
      moreover have "s' \<noteq> s" using cs s' y S' by auto
      ultimately have "funcs h3 s' = funcs h s'" using f3 by simp
      then show ?thesis using same Ref by (simp add: branches_def)
    qed (simp_all add: branches_def same)
  qed
qed

lemma loop_splitter:
  "linkable h f i xs \<Longrightarrow> link_inputs h f i xs = (h', r) \<Longrightarrow> y < nvars h \<Longrightarrow>
     (\<forall>s. splitter (vars h y) = Ref s \<longrightarrow> splitter (vars h' y) = Ref s)
     \<and> (splitter (vars h' y) = Unset \<longleftrightarrow> splitter (vars h y) = Unset \<and> y \<notin> set xs)
     \<and> (splitter (vars h' y) = Null \<longleftrightarrow> splitter (vars h y) = Null)
     \<and> (\<forall>s. splitter (vars h y) = Unset \<longrightarrow> splitter (vars h' y) = Ref s
            \<longrightarrow> nfuncs h \<le> s \<and> s < nfuncs h')"
proof (induction xs arbitrary: h i)
  case Nil
  then show ?case by simp
next
  case (Cons x xs)
  from step_fields [OF Cons.prems(1)] obtain h3 s S outs l where
    eq: "link_inputs h f i (x # xs) = link_inputs h3 f (Suc i) xs"
    and st: "step_rel h f i x h3 s S outs l" by blast
  note fr = step_rel_frame [OF Cons.prems(1) st]
  note br = step_rel_branches [OF Cons.prems(1) st]
  have L3: "linkable h3 f (Suc i) xs" by (rule step_linkable [OF Cons.prems(1) st])
  have run: "link_inputs h3 f (Suc i) xs = (h', r)" using eq Cons.prems(2) by simp
  have y3: "y < nvars h3" using Cons.prems(3) fr(1) by simp
  note IH = Cons.IH [OF L3 run y3]
  have mono: "nfuncs h3 \<le> nfuncs h'" using loop_frame [OF L3 run] by simp
  have xnn: "splitter (vars h x) \<noteq> Null" using Cons.prems(1) by (simp add: linkable_def)
  show ?case
  proof (cases "y = x")
    case True
    have "splitter (vars h' y) = Ref s" using IH br(3) True by simp
    then show ?thesis using br(4,5) True mono xnn by auto
  next
    case False
    then have "splitter (vars h3 y) = splitter (vars h y)"
      using br(2) Cons.prems(3) by simp
    then show ?thesis using IH False fr(2) by auto
  qed
qed

lemma loop_branches:
  "linkable h f i xs \<Longrightarrow> link_inputs h f i xs = (h', r) \<Longrightarrow> y < nvars h \<Longrightarrow>
     \<exists>new. branches h' y = branches h y @ new \<and> length new = count_list xs y
        \<and> (\<forall>v \<in> set new. nvars h \<le> v \<and> v < nvars h' \<and> data (vars h' v) = data (vars h y))"
proof (induction xs arbitrary: h i)
  case Nil
  then show ?case by simp
next
  case (Cons x xs)
  from step_fields [OF Cons.prems(1)] obtain h3 s S outs l where
    eq: "link_inputs h f i (x # xs) = link_inputs h3 f (Suc i) xs"
    and st: "step_rel h f i x h3 s S outs l" by blast
  note fr = step_rel_frame [OF Cons.prems(1) st]
  note br = step_rel_branches [OF Cons.prems(1) st]
  have L3: "linkable h3 f (Suc i) xs" by (rule step_linkable [OF Cons.prems(1) st])
  have run: "link_inputs h3 f (Suc i) xs = (h', r)" using eq Cons.prems(2) by simp
  have y3: "y < nvars h3" using Cons.prems(3) fr(1) by simp
  from Cons.IH [OF L3 run y3] obtain new where
    new: "branches h' y = branches h3 y @ new" "length new = count_list xs y"
      "\<forall>v \<in> set new. nvars h3 \<le> v \<and> v < nvars h' \<and> data (vars h' v) = data (vars h3 y)"
    by blast
  have dy: "data (vars h3 y) = data (vars h y)" using fr(3) Cons.prems(3) by simp
  have lf: "nvars h' = nvars h3 + length xs"
    "data (vars h' (nvars h)) = data (vars h3 (nvars h))"
    using loop_frame [OF L3 run] fr(1) by simp_all
  show ?case
  proof (cases "y = x")
    case True
    have "branches h' y = branches h y @ (nvars h # new)"
      using new(1) br(1) True by simp
    moreover have "length (nvars h # new) = count_list (x # xs) y"
      using new(2) True by simp
    moreover have "\<forall>v \<in> set (nvars h # new).
        nvars h \<le> v \<and> v < nvars h' \<and> data (vars h' v) = data (vars h y)"
      using new(3) dy lf fr(1,6) True by auto
    ultimately show ?thesis by blast
  next
    case False
    have "branches h' y = branches h y @ new"
      using new(1) br(2) False Cons.prems(3) by simp
    moreover have "length new = count_list (x # xs) y"
      using new(2) False by simp
    moreover have "\<forall>v \<in> set new.
        nvars h \<le> v \<and> v < nvars h' \<and> data (vars h' v) = data (vars h y)"
      using new(3) dy fr(1) by auto
    ultimately show ?thesis by blast
  qed
qed

lemma callable_linkable:
  assumes "callable h f xs"
  shows "linkable (h\<lparr>funcs := (funcs h)(f := (funcs h f)\<lparr>inputs := Some xs\<rparr>)\<rparr>) f 0 xs"
proof -
  let ?h0 = "h\<lparr>funcs := (funcs h)(f := (funcs h f)\<lparr>inputs := Some xs\<rparr>)\<rparr>"
  have nf: "\<forall>x < nvars h. splitter (vars h x) \<noteq> Ref f"
    and inv: "\<forall>x < nvars h. branch_ok h x"
    using assms by (auto simp: callable_def branch_inv_def)
  have "branch_ok ?h0 x" if "x < nvars h" for x
  proof (cases "splitter (vars h x)")
    case (Ref s)
    then have "s \<noteq> f" using nf that by auto
    then show ?thesis using inv that Ref by (auto simp: branch_ok_def)
  qed (simp_all add: branch_ok_def)
  then show ?thesis using assms by (simp add: linkable_def callable_def branch_inv_def)
qed

lemma new_Variables_props:
  "new_Variables h ys = (h', vs) \<Longrightarrow>
     vs = [nvars h ..< nvars h + length ys] \<and> nvars h' = nvars h + length ys
     \<and> funcs h' = funcs h \<and> nfuncs h' = nfuncs h
     \<and> (\<forall>v < nvars h. vars h' v = vars h v)
     \<and> (\<forall>j < length ys. vars h' (nvars h + j) =
           \<lparr>data = ys ! j, vrank = 0, creator = None, grad = None, splitter = Unset\<rparr>)"
proof (induction ys arbitrary: h h' vs)
  case Nil
  then show ?case by simp
next
  case (Cons y ys)
  let ?h1 = "fst (new_Variable h y)"
  obtain h2 ws where r: "new_Variables ?h1 ys = (h2, ws)" by (cases "new_Variables ?h1 ys")
  have h1: "nvars ?h1 = Suc (nvars h)" "funcs ?h1 = funcs h" "nfuncs ?h1 = nfuncs h"
    "vars ?h1 = (vars h)(nvars h := \<lparr>data = y, vrank = 0, creator = None, grad = None,
        splitter = Unset\<rparr>)"
    by (simp_all add: new_Variable_def)
  have res: "h' = h2" "vs = nvars h # ws"
    using Cons.prems r by (simp_all add: new_Variable_def split: prod.splits)
  note IH = Cons.IH [OF r]
  have "[nvars h ..< nvars h + Suc (length ys)]
      = nvars h # [Suc (nvars h) ..< nvars h + Suc (length ys)]"
    by (rule upt_conv_Cons) simp
  then have a: "vs = [nvars h ..< nvars h + length (y # ys)]"
    using IH res h1(1) by (simp del: upt_Suc)
  have b: "\<forall>v < nvars h. vars h' v = vars h v" using IH res h1 by simp
  have c: "vars h' (nvars h + j) =
           \<lparr>data = (y # ys) ! j, vrank = 0, creator = None, grad = None, splitter = Unset\<rparr>"
    if "j < length (y # ys)" for j
  proof (cases j)
    case 0
    then show ?thesis using IH res h1 by simp
  next
    case (Suc k)
    then show ?thesis using IH res h1(1) that by simp
  qed
  show ?case using a b c IH res h1(1,2,3) by (simp del: upt_Suc)
qed

lemma set_creators_props:
  "rank (funcs h f) = Some r \<Longrightarrow>
     \<exists>h'. set_creators h f vs = (h', None) \<and> funcs h' = funcs h \<and> nvars h' = nvars h
        \<and> nfuncs h' = nfuncs h
        \<and> (\<forall>v. vars h' v = (if v \<in> set vs then (vars h v)\<lparr>creator := Some f, vrank := r\<rparr>
                              else vars h v))"
proof (induction vs arbitrary: h)
  case Nil
  then show ?case by simp
next
  case (Cons y ys)
  let ?h1 = "h\<lparr>vars := (vars h)(y := (vars h y)\<lparr>creator := Some f, vrank := r\<rparr>)\<rparr>"
  have s: "set_creator h y f = (?h1, None)" using Cons.prems by (simp add: set_creator_def)
  have "rank (funcs ?h1 f) = Some r" using Cons.prems by simp
  from Cons.IH [OF this] obtain h' where
    h': "set_creators ?h1 f ys = (h', None)" "funcs h' = funcs ?h1" "nvars h' = nvars ?h1"
      "nfuncs h' = nfuncs ?h1"
      "\<forall>v. vars h' v = (if v \<in> set ys then (vars ?h1 v)\<lparr>creator := Some f, vrank := r\<rparr>
                              else vars ?h1 v)"
    by blast
  have "set_creators h f (y # ys) = (h', None)" using s h'(1) by simp
  moreover have "\<forall>v. vars h' v = (if v \<in> set (y # ys)
      then (vars h v)\<lparr>creator := Some f, vrank := r\<rparr> else vars h v)"
    using h'(5) by auto
  ultimately show ?case using h'(2,3,4) by simp
qed

lemma call_final:
  assumes C: "callable h f xs" and ne: "xs \<noteq> []" and run: "call cls h f xs = (h', res)"
  shows "\<exists>h1 r.
      link_inputs (h\<lparr>funcs := (funcs h)(f := (funcs h f)\<lparr>inputs := Some xs\<rparr>)\<rparr>) f 0 xs = (h1, None)
    \<and> linkable h1 f (length xs) [] \<and> nvars h1 = nvars h + length xs
    \<and> inputs (funcs h1 f) = Some [nvars h ..< nvars h + length xs]
    \<and> max_rank (map (\<lambda>x. vrank (vars h x)) xs) = Inr r
    \<and> nfuncs h' = nfuncs h1
    \<and> (\<forall>v < nvars h1. vars h' v = vars h1 v)
    \<and> (\<forall>g. g \<noteq> f \<longrightarrow> funcs h' g = funcs h1 g)
    \<and> inputs (funcs h' f) = inputs (funcs h1 f) \<and> rank (funcs h' f) = Some r
    \<and> attrs (funcs h' f) = attrs (funcs h1 f)
    \<and> parameter_names (funcs h' f) = parameter_names (funcs h1 f)
    \<and> gradient_names (funcs h' f) = gradient_names (funcs h1 f)
    \<and> (case forward cls (map (\<lambda>x. data (vars h x)) xs) of
          Inl e \<Rightarrow> res = Inl e \<and> nvars h' = nvars h1
                   \<and> outputs (funcs h' f) = outputs (funcs h1 f)
        | Inr ys \<Rightarrow>
            res = Inr (if length ys = 1 then Single (nvars h1)
                       else Multiple [nvars h1 ..< nvars h1 + length ys])
            \<and> nvars h' = nvars h1 + length ys
            \<and> outputs (funcs h' f) = Some [nvars h1 ..< nvars h1 + length ys]
            \<and> (\<forall>j < length ys. vars h' (nvars h1 + j) =
                  \<lparr>data = ys ! j, vrank = r, creator = Some f, grad = None,
                   splitter = Unset\<rparr>))"
proof -
  let ?h0 = "h\<lparr>funcs := (funcs h)(f := (funcs h f)\<lparr>inputs := Some xs\<rparr>)\<rparr>"
  let ?n = "nvars h"
  let ?ins = "[?n ..< ?n + length xs]"
  have L0: "linkable ?h0 f 0 xs" by (rule callable_linkable [OF C])
  from link_inputs_ok [OF L0] obtain h1 where
    link: "link_inputs ?h0 f 0 xs = (h1, None)" and L1: "linkable h1 f (length xs) []"
    by auto
  have n1: "nvars h1 = ?n + length xs" using loop_frame [OF L0 link] by simp
  have ins: "inputs (funcs h1 f) = Some ?ins"
    using loop_inputs [OF L0 link, of xs] by simp
  have ranks: "map (\<lambda>x. vrank (vars h1 x)) ?ins = map (\<lambda>x. vrank (vars h x)) xs"
    using loop_derived [OF L0 link] by (intro nth_equalityI) simp_all
  have raws: "map (\<lambda>x. data (vars h1 x)) ?ins = map (\<lambda>x. data (vars h x)) xs"
    using loop_derived [OF L0 link] by (intro nth_equalityI) simp_all
  obtain r where r: "max_rank (map (\<lambda>x. vrank (vars h x)) xs) = Inr r"
    using ne by (cases xs) simp_all
  let ?h2 = "h1\<lparr>funcs := (funcs h1)(f := (funcs h1 f)\<lparr>rank := Some r\<rparr>)\<rparr>"
  let ?fw = "forward cls (map (\<lambda>x. data (vars h x)) xs)"
  have unf: "call cls h f xs =
      (case ?fw of
         Inl e \<Rightarrow> (?h2, Inl e)
       | Inr ys \<Rightarrow>
           (case new_Variables ?h2 ys of (h3, outs) \<Rightarrow>
              (let h4 = h3\<lparr>funcs := (funcs h3)(f := (funcs h3 f)\<lparr>outputs := Some outs\<rparr>)\<rparr> in
               case set_creators h4 f outs of
                 (h5, Some e) \<Rightarrow> (h5, Inl e)
               | (h5, None) \<Rightarrow>
                   (h5, Inr (if length outs = 1 then Single (outs ! 0) else Multiple outs)))))"
    unfolding call_def Let_def link using ins ranks raws r by simp
  show ?thesis
  proof (cases ?fw)
    case (Inl e)
    then have "h' = ?h2" "res = Inl e" using run unf by simp_all
    then show ?thesis using link L1 n1 ins r Inl by simp
  next
    case (Inr ys)
    obtain h3 outs where nv: "new_Variables ?h2 ys = (h3, outs)"
      by (cases "new_Variables ?h2 ys")
    note p3 = new_Variables_props [OF nv]
    let ?outs = "[nvars h1 ..< nvars h1 + length ys]"
    have outs: "outs = ?outs" using p3 by simp
    let ?h4 = "h3\<lparr>funcs := (funcs h3)(f := (funcs h3 f)\<lparr>outputs := Some outs\<rparr>)\<rparr>"
    have "rank (funcs ?h4 f) = Some r" using p3 by simp
    from set_creators_props [OF this, of outs] obtain h5 where
      h5: "set_creators ?h4 f outs = (h5, None)" "funcs h5 = funcs ?h4" "nvars h5 = nvars ?h4"
        "nfuncs h5 = nfuncs ?h4"
        "\<forall>v. vars h5 v = (if v \<in> set outs then (vars ?h4 v)\<lparr>creator := Some f, vrank := r\<rparr>
                              else vars ?h4 v)"
      by blast
    have res: "h' = h5"
      "res = Inr (if length outs = 1 then Single (outs ! 0) else Multiple outs)"
      using run unf Inr nv h5(1) by (simp_all add: Let_def)
    have len: "length outs = length ys" using outs by simp
    have o0: "length ys = 1 \<Longrightarrow> outs ! 0 = nvars h1" using outs by simp
    have a: "res = Inr (if length ys = 1 then Single (nvars h1) else Multiple ?outs)"
      using res(2) len o0 outs by (simp del: upt_Suc)
    have b: "\<forall>v < nvars h1. vars h' v = vars h1 v"
      using res(1) h5(5) p3 outs by simp
    have c: "vars h' (nvars h1 + j) =
        \<lparr>data = ys ! j, vrank = r, creator = Some f, grad = None, splitter = Unset\<rparr>"
      if "j < length ys" for j
      using res(1) h5(5) p3 outs that by simp
    have d: "funcs h' = (funcs h1)(f := (funcs h1 f)\<lparr>rank := Some r, outputs := Some ?outs\<rparr>)"
      using res(1) h5(2) p3 outs by (simp del: upt_Suc)
    have e: "nvars h' = nvars h1 + length ys" "nfuncs h' = nfuncs h1"
      using res(1) h5(3,4) p3 by simp_all
    show ?thesis
      apply (rule exI [of _ h1], rule exI [of _ r])
      apply (insert link L1 n1 ins r Inr a b c d e)
      apply (simp del: upt_Suc)
      done
  qed
qed


lemma call_inv:
  assumes C: "callable h f xs" and ne: "xs \<noteq> []" and run: "call cls h f xs = (h', res)"
  shows "branch_inv h'" and "\<forall>x < nvars h'. splitter (vars h' x) \<noteq> Ref f"
    and "nvars h \<le> nvars h'" and "nfuncs h \<le> nfuncs h'"
proof -
  let ?h0 = "h\<lparr>funcs := (funcs h)(f := (funcs h f)\<lparr>inputs := Some xs\<rparr>)\<rparr>"
  from call_final [OF C ne run] obtain h1 r where
    link: "link_inputs ?h0 f 0 xs = (h1, None)"
    and L1: "linkable h1 f (length xs) []"
    and n1: "nvars h1 = nvars h + length xs" "nfuncs h' = nfuncs h1"
    and v: "\<forall>v < nvars h1. vars h' v = vars h1 v"
    and g: "\<forall>g. g \<noteq> f \<longrightarrow> funcs h' g = funcs h1 g"
    and fw: "case forward cls (map (\<lambda>x. data (vars h x)) xs) of
          Inl e \<Rightarrow> res = Inl e \<and> nvars h' = nvars h1
                   \<and> outputs (funcs h' f) = outputs (funcs h1 f)
        | Inr ys \<Rightarrow>
            res = Inr (if length ys = 1 then Single (nvars h1)
                       else Multiple [nvars h1 ..< nvars h1 + length ys])
            \<and> nvars h' = nvars h1 + length ys
            \<and> outputs (funcs h' f) = Some [nvars h1 ..< nvars h1 + length ys]
            \<and> (\<forall>j < length ys. vars h' (nvars h1 + j) =
                  \<lparr>data = ys ! j, vrank = r, creator = Some f, grad = None,
                   splitter = Unset\<rparr>)"
    by blast
  have new: "splitter (vars h' x) = Unset" if "nvars h1 \<le> x" "x < nvars h'" for x
  proof (cases "forward cls (map (\<lambda>x. data (vars h x)) xs)")
    case (Inl e)
    then show ?thesis using fw that by simp
  next
    case (Inr ys)
    then have "x - nvars h1 < length ys" using fw that by simp
    then have "splitter (vars h' (nvars h1 + (x - nvars h1))) = Unset" using fw Inr by simp
    then show ?thesis using that by simp
  qed
  have inv1: "\<forall>x < nvars h1. branch_ok h1 x"
    and nf1: "\<forall>x < nvars h1. splitter (vars h1 x) \<noteq> Ref f"
    using L1 by (auto simp: linkable_def branch_inv_def)
  have ok: "branch_ok h' x" if "x < nvars h'" for x
  proof (cases "x < nvars h1")
    case True
    show ?thesis
    proof (cases "splitter (vars h1 x)")
      case (Ref s)
      then have "s \<noteq> f" using nf1 True by auto
      then show ?thesis using inv1 True Ref v g n1 by (auto simp: branch_ok_def)
    qed (use v True in \<open>simp_all add: branch_ok_def\<close>)
  next
    case False
    then show ?thesis using new that by (simp add: branch_ok_def)
  qed
  then show "branch_inv h'" by (simp add: branch_inv_def)
  show "\<forall>x < nvars h'. splitter (vars h' x) \<noteq> Ref f"
  proof (intro allI impI)
    fix x assume "x < nvars h'"
    then show "splitter (vars h' x) \<noteq> Ref f"
      using nf1 v new [of x] by (cases "x < nvars h1") auto
  qed
  show "nvars h \<le> nvars h'" using n1 fw by (auto split: sum.splits)
  show "nfuncs h \<le> nfuncs h'"
    using loop_frame [OF callable_linkable [OF C] link] n1 by simp
qed

section \<open>Ranks\<close>

lemma call_ranks:
  assumes C: "callable h f xs" and ne: "xs \<noteq> []" and run: "call cls h f xs = (h', res)"
  shows "\<exists>ins r. inputs (funcs h' f) = Some ins \<and> rank (funcs h' f) = Some r
     \<and> max_rank (map (\<lambda>x. vrank (vars h x)) xs) = Inr r
     \<and> map (\<lambda>x. vrank (vars h' x)) ins = map (\<lambda>x. vrank (vars h x)) xs
     \<and> map (\<lambda>x. data (vars h' x)) ins = map (\<lambda>x. data (vars h x)) xs"
proof -
  let ?h0 = "h\<lparr>funcs := (funcs h)(f := (funcs h f)\<lparr>inputs := Some xs\<rparr>)\<rparr>"
  let ?ins = "[nvars h ..< nvars h + length xs]"
  from call_final [OF C ne run] obtain h1 r where
    link: "link_inputs ?h0 f 0 xs = (h1, None)"
    and n1: "nvars h1 = nvars h + length xs"
    and v: "\<forall>v < nvars h1. vars h' v = vars h1 v"
    and ins: "inputs (funcs h1 f) = Some ?ins" "inputs (funcs h' f) = inputs (funcs h1 f)"
    and r: "max_rank (map (\<lambda>x. vrank (vars h x)) xs) = Inr r" "rank (funcs h' f) = Some r"
    by blast
  note d = loop_derived [OF callable_linkable [OF C] link]
  have "map (\<lambda>x. vrank (vars h' x)) ?ins = map (\<lambda>x. vrank (vars h x)) xs"
    using d v n1 by (intro nth_equalityI) simp_all
  moreover have "map (\<lambda>x. data (vars h' x)) ?ins = map (\<lambda>x. data (vars h x)) xs"
    using d v n1 by (intro nth_equalityI) simp_all
  ultimately show ?thesis using ins r by simp
qed

lemma max_rank_Max: "max_rank rs = Inr r \<Longrightarrow> rs \<noteq> [] \<and> r = Max (set rs)"
proof (cases rs)
  case Nil
  then show "max_rank rs = Inr r \<Longrightarrow> ?thesis" by simp
next
  case (Cons a list)
  assume "max_rank rs = Inr r"
  then have "r = fold max list a" using Cons by simp
  also have "\<dots> = Max (set (a # list))" by (rule Max.set_eq_fold [symmetric])
  finally show ?thesis using Cons by simp
qed

text \<open>
  Claim C2. After a call of a node on at least one input, in a heap whose branch links
  are in order, the node's rank is the maximum of the ranks of its inputs as it holds them
  (the branch-derived variables), so that each of them has a rank at most the node's. This
  holds whether or not the forward method then fails. Every Split node has the rank of the
  single variable it branches, as \<^verbatim>\<open>Split.__init__\<close> sets it; the call keeps that true for
  the Split nodes it finds and for those it creates.
\<close>

theorem call_rank_is_max:
  assumes "callable h f xs" and "xs \<noteq> []" and "call cls h f xs = (h', res)"
  shows "\<exists>ins r. inputs (funcs h' f) = Some ins \<and> length ins = length xs
     \<and> rank (funcs h' f) = Some r
     \<and> r = Max (set (map (\<lambda>x. vrank (vars h' x)) ins))
     \<and> (\<forall>x \<in> set ins. vrank (vars h' x) \<le> r)
     \<and> (\<forall>x < nvars h'. \<forall>s. splitter (vars h' x) = Ref s \<longrightarrow>
           inputs (funcs h' s) = Some [x] \<and> rank (funcs h' s) = Some (vrank (vars h' x)))"
proof -
  from call_ranks [OF assms] obtain ins r where
    ins: "inputs (funcs h' f) = Some ins" "rank (funcs h' f) = Some r"
    and r: "max_rank (map (\<lambda>x. vrank (vars h x)) xs) = Inr r"
    and m: "map (\<lambda>x. vrank (vars h' x)) ins = map (\<lambda>x. vrank (vars h x)) xs"
    by blast
  have len: "length ins = length xs" using m by (metis length_map)
  have mx: "r = Max (set (map (\<lambda>x. vrank (vars h' x)) ins))"
    using max_rank_Max [OF r] m by simp
  have le: "\<forall>x \<in> set ins. vrank (vars h' x) \<le> r"
    unfolding mx by (auto intro!: Max_ge)
  have "branch_inv h'" by (rule call_inv(1) [OF assms])
  then have br: "\<forall>x < nvars h'. \<forall>s. splitter (vars h' x) = Ref s \<longrightarrow>
           inputs (funcs h' s) = Some [x] \<and> rank (funcs h' s) = Some (vrank (vars h' x))"
    by (auto simp: branch_inv_def branch_ok_def)
  show ?thesis using ins len mx le br by blast
qed

lemma ex_heap2_callable: "callable ex_heap2 0 [0, 1]"
  by (simp add: callable_def branch_inv_def branch_ok_def ex_heap2_def ex_heap_def less_Suc_eq)

lemma ex_call2:
  "inputs (funcs (fst (call ex_op ex_heap2 0 [0, 1])) 0) = Some [2, 3]"
  "rank (funcs (fst (call ex_op ex_heap2 0 [0, 1])) 0) = Some 3"
  "vrank (vars (fst (call ex_op ex_heap2 0 [0, 1])) 2) = 0"
  "vrank (vars (fst (call ex_op ex_heap2 0 [0, 1])) 3) = 3"
  by (simp_all add: call_def ex_heap2_def ex_heap_def ex_op_def ensure_splitter_def
      new_Split_def add_branch_def new_Variable_def set_creator_def forward_def
      forward_gpu_def is_gpu_input_def Let_def)

theorem call_rank_is_max_witness:
  "callable ex_heap2 0 [0, 1]
   \<and> inputs (funcs (fst (call ex_op ex_heap2 0 [0, 1])) 0) = Some [2, 3]
   \<and> rank (funcs (fst (call ex_op ex_heap2 0 [0, 1])) 0) = Some 3
   \<and> Max (set (map (\<lambda>x. vrank (vars (fst (call ex_op ex_heap2 0 [0, 1])) x)) [2, 3])) = 3"
proof -
  have run: "call ex_op ex_heap2 0 [0, 1]
      = (fst (call ex_op ex_heap2 0 [0, 1]), snd (call ex_op ex_heap2 0 [0, 1]))"
    by simp
  from call_rank_is_max [OF ex_heap2_callable _ run]
  obtain ins r where "inputs (funcs (fst (call ex_op ex_heap2 0 [0, 1])) 0) = Some ins"
    "rank (funcs (fst (call ex_op ex_heap2 0 [0, 1])) 0) = Some r"
    "r = Max (set (map (\<lambda>x. vrank (vars (fst (call ex_op ex_heap2 0 [0, 1])) x)) ins))"
    by blast
  then show ?thesis using ex_heap2_callable ex_call2(1,2) by simp
qed

section \<open>Branch nodes\<close>

lemma call_branches_frame:
  assumes C: "callable h f xs" and ne: "xs \<noteq> []" and run: "call cls h f xs = (h', res)"
    and y: "y < nvars h"
  shows "\<exists>h1. link_inputs (h\<lparr>funcs := (funcs h)(f := (funcs h f)\<lparr>inputs := Some xs\<rparr>)\<rparr>) f 0 xs
             = (h1, None)
      \<and> nvars h \<le> nvars h1
      \<and> (\<forall>v < nvars h1. vars h' v = vars h1 v)
      \<and> branches h' y = branches h1 y
      \<and> branches (h\<lparr>funcs := (funcs h)(f := (funcs h f)\<lparr>inputs := Some xs\<rparr>)\<rparr>) y = branches h y
      \<and> (\<forall>s. s \<noteq> f \<longrightarrow> funcs h' s = funcs h1 s)
      \<and> (\<forall>x < nvars h1. splitter (vars h1 x) \<noteq> Ref f)"
proof -
  let ?h0 = "h\<lparr>funcs := (funcs h)(f := (funcs h f)\<lparr>inputs := Some xs\<rparr>)\<rparr>"
  from call_final [OF C ne run] obtain h1 r where
    link: "link_inputs ?h0 f 0 xs = (h1, None)"
    and L1: "linkable h1 f (length xs) []"
    and n1: "nvars h1 = nvars h + length xs"
    and v: "\<forall>v < nvars h1. vars h' v = vars h1 v"
    and g: "\<forall>g. g \<noteq> f \<longrightarrow> funcs h' g = funcs h1 g"
    and "rank (funcs h' f) = Some r"
    by blast
  have nf1: "\<forall>x < nvars h1. splitter (vars h1 x) \<noteq> Ref f"
    using L1 by (simp add: linkable_def)
  have nf: "splitter (vars h y) \<noteq> Ref f" using C y by (simp add: callable_def)
  have y1: "y < nvars h1" using y n1 by simp
  have "branches h' y = branches h1 y"
  proof (cases "splitter (vars h1 y)")
    case (Ref s)
    then have "s \<noteq> f" using nf1 y1 by auto
    then show ?thesis using v y1 g Ref by (simp add: branches_def)
  qed (use v y1 in \<open>simp_all add: branches_def\<close>)
  moreover have "branches ?h0 y = branches h y"
    using nf by (cases "splitter (vars h y)") (auto simp: branches_def)
  ultimately show ?thesis using link n1 v g nf1 by auto
qed

text \<open>
  Claim C3, as amended. A variable has no Split node until it is first used as an input,
  and the call that first uses it creates the node (testing \<^verbatim>\<open>hasattr(x, 'splitter')\<close>);
  a variable that has a Split node keeps it. Every use of the variable as an input, the
  first included, adds exactly one derived variable to that node: after a call the outputs
  of the node are the former ones followed by as many new variables as the variable occurs
  among the inputs, and each new one holds the very raw value of the original.
\<close>

theorem call_adds_branches:
  assumes "callable h f xs" and "xs \<noteq> []" and "call cls h f xs = (h', res)"
    and "y < nvars h"
  shows "(\<exists>new. branches h' y = branches h y @ new \<and> length new = count_list xs y
            \<and> (\<forall>v \<in> set new. nvars h \<le> v \<and> data (vars h' v) = data (vars h' y)))
     \<and> (\<forall>s. splitter (vars h y) = Ref s \<longrightarrow> splitter (vars h' y) = Ref s)
     \<and> (splitter (vars h' y) = Unset \<longleftrightarrow> splitter (vars h y) = Unset \<and> y \<notin> set xs)
     \<and> (\<forall>s. splitter (vars h y) = Unset \<and> splitter (vars h' y) = Ref s \<longrightarrow>
            nfuncs h \<le> s \<and> inputs (funcs h' s) = Some [y])"
proof -
  let ?h0 = "h\<lparr>funcs := (funcs h)(f := (funcs h f)\<lparr>inputs := Some xs\<rparr>)\<rparr>"
  note C = assms(1) and y = assms(4)
  from call_branches_frame [OF assms] obtain h1 where
    link: "link_inputs ?h0 f 0 xs = (h1, None)"
    and n1: "nvars h \<le> nvars h1"
    and v: "\<forall>v < nvars h1. vars h' v = vars h1 v"
    and b: "branches h' y = branches h1 y" "branches ?h0 y = branches h y"
    by blast
  have L0: "linkable ?h0 f 0 xs" by (rule callable_linkable [OF C])
  have y0: "y < nvars ?h0" using y by simp
  have y1: "vars h' y = vars h1 y" using v y n1 by simp
  from loop_branches [OF L0 link y0] obtain new where
    new: "branches h1 y = branches ?h0 y @ new" "length new = count_list xs y"
      "\<forall>v \<in> set new. nvars ?h0 \<le> v \<and> v < nvars h1 \<and> data (vars h1 v) = data (vars ?h0 y)"
    by blast
  have dy: "data (vars h1 y) = data (vars ?h0 y)" using loop_frame [OF L0 link] y0 by simp
  have A: "\<exists>new. branches h' y = branches h y @ new \<and> length new = count_list xs y
            \<and> (\<forall>v \<in> set new. nvars h \<le> v \<and> data (vars h' v) = data (vars h' y))"
    using new b v y1 dy by (intro exI [of _ new]) auto
  note sp = loop_splitter [OF L0 link y0]
  have B: "\<forall>s. splitter (vars h y) = Ref s \<longrightarrow> splitter (vars h' y) = Ref s"
    using sp y1 by simp
  have Cc: "splitter (vars h' y) = Unset \<longleftrightarrow> splitter (vars h y) = Unset \<and> y \<notin> set xs"
    using sp y1 by simp
  have inv: "branch_inv h'" by (rule call_inv(1) [OF assms(1-3)])
  have yh: "y < nvars h'" using call_inv(3) [OF assms(1-3)] y by simp
  have D: "\<forall>s. splitter (vars h y) = Unset \<and> splitter (vars h' y) = Ref s \<longrightarrow>
            nfuncs h \<le> s \<and> inputs (funcs h' s) = Some [y]"
  proof (intro allI impI)
    fix s assume a: "splitter (vars h y) = Unset \<and> splitter (vars h' y) = Ref s"
    then have "nfuncs h \<le> s" using sp y1 by simp
    moreover have "inputs (funcs h' s) = Some [y]"
      using inv yh a by (auto simp: branch_inv_def branch_ok_def)
    ultimately show "nfuncs h \<le> s \<and> inputs (funcs h' s) = Some [y]" by simp
  qed
  show ?thesis using A B Cc D by blast
qed

lemma ex_heap_callable: "callable ex_heap 0 [0, 0]"
  by (simp add: callable_def branch_inv_def branch_ok_def ex_heap_def)

theorem call_adds_branches_witness:
  "callable ex_heap 0 [0, 0] \<and> (0::nat) < nvars ex_heap
   \<and> count_list [0, 0] (0::nat) = 2
   \<and> branches ex_heap 0 = []
   \<and> (\<exists>new. branches (fst (call ex_op ex_heap 0 [0, 0])) 0 = new \<and> length new = 2)"
proof -
  have run: "call ex_op ex_heap 0 [0, 0]
      = (fst (call ex_op ex_heap 0 [0, 0]), snd (call ex_op ex_heap 0 [0, 0]))"
    by simp
  have y: "0 < nvars ex_heap" by (simp add: ex_heap_def)
  have b: "branches ex_heap 0 = []" by (simp add: branches_def ex_heap_def)
  from call_adds_branches [OF ex_heap_callable _ run y]
  obtain new where "branches (fst (call ex_op ex_heap 0 [0, 0])) 0 = branches ex_heap 0 @ new"
    "length new = count_list [0, 0] (0::nat)"
    by blast
  then show ?thesis using ex_heap_callable y b by simp
qed

text \<open>
  The claim as it was stated has the Split node created at the second use. In the example
  heap the leaf has no splitter; after one call on it, it has the Split node 1, which has
  one derived variable.
\<close>

theorem branch_created_at_first_use:
  "splitter (vars ex_heap 0) = Unset
   \<and> splitter (vars (fst (call ex_op ex_heap 0 [0])) 0) = Ref 1
   \<and> outputs (funcs (fst (call ex_op ex_heap 0 [0])) 1) = Some [1]"
  by (simp add: call_def ex_heap_def ex_op_def ensure_splitter_def
      new_Split_def add_branch_def new_Variable_def set_creator_def forward_def
      forward_cpu_def is_gpu_input_def Let_def)

section \<open>A missing forward method\<close>




section \<open>Calls of a parameterized function\<close>














end
